theory Spec2Isabelle
  imports Main "HOL-Library.Word"
begin

section \<open>micro\_taskman: a cooperative task scheduler with one-shot timers\<close>

text \<open>
  A shallow embedding of \<^verbatim>\<open>taskman.h\<close> and \<^verbatim>\<open>taskman.c\<close>. The module-level storage of
  the C file (the arrays \<^verbatim>\<open>tasks\<close> and \<^verbatim>\<open>timers\<close>, the counter \<^verbatim>\<open>millis\<close> and the
  function-static \<^verbatim>\<open>taskExecuted\<close> of \<^verbatim>\<open>tmUpdate\<close>) is one record that every
  function takes and returns. \<^verbatim>\<open>uint32_t\<close> is \<open>32 word\<close>, \<^verbatim>\<open>uint8_t\<close> and
  \<^verbatim>\<open>int8_t\<close> are \<open>8 word\<close> (read with \<open>sint\<close> where the sign matters).

  A function pointer is its address, a natural number; \<open>0\<close> is the null pointer.
  The bodies of the callbacks are not part of the module: calling one is recorded in the
  \<open>trace\<close> of the state and has no other effect on the scheduler's storage. The weak
  default \<^verbatim>\<open>sIdleTask\<close> has an empty body; calling it is recorded as \<open>Idle\<close>.

  Calls happen one after the other: a tick that interrupts another function of the
  module in the middle is outside this model.
\<close>

subsection \<open>Data\<close>

type_synonym fptr = nat

datatype event = Call fptr | Idle

definition MAX_TASKS :: nat where
  "MAX_TASKS = 10"

definition MAX_TIMERS :: nat where
  "MAX_TIMERS = 5"

record Task_s =
  taskFunc :: fptr
  period_ms :: "32 word"
  delay_ms :: "32 word"
  isReady :: "8 word"

record OneShotTimer_s =
  active :: "8 word"
  start_time :: "32 word"
  delay :: "32 word"
  callback :: fptr

record tm_state =
  tasks :: "Task_s list"
  timers :: "OneShotTimer_s list"
  millis :: "32 word"
  taskExecuted :: "8 word"
  trace :: "event list"

text \<open>Static storage is zero-initialised.\<close>

definition tm_init :: tm_state where
  "tm_init =
     \<lparr>tasks = replicate MAX_TASKS \<lparr>taskFunc = 0, period_ms = 0, delay_ms = 0, isReady = 0\<rparr>,
      timers = replicate MAX_TIMERS \<lparr>active = 0, start_time = 0, delay = 0, callback = 0\<rparr>,
      millis = 0, taskExecuted = 0, trace = []\<rparr>"

text \<open>The arrays have their declared sizes; every function below keeps them.\<close>

definition wf_state :: "tm_state \<Rightarrow> bool" where
  "wf_state s = (length (tasks s) = MAX_TASKS \<and> length (timers s) = MAX_TIMERS)"

subsection \<open>Calls that leave the module\<close>

definition call :: "fptr \<Rightarrow> tm_state \<Rightarrow> tm_state" where
  "call f s = s\<lparr>trace := trace s @ [Call f]\<rparr>"

definition sIdleTask :: "tm_state \<Rightarrow> tm_state" where
  "sIdleTask s = s\<lparr>trace := trace s @ [Idle]\<rparr>"

definition get_millis :: "tm_state \<Rightarrow> 32 word" where
  "get_millis s = millis s"

subsection \<open>The task table\<close>

function tmAddTask_loop :: "nat \<Rightarrow> fptr \<Rightarrow> 32 word \<Rightarrow> tm_state \<Rightarrow> 8 word \<times> tm_state" where
  "tmAddTask_loop i func period s =
     (if i < MAX_TASKS then
        (if taskFunc (tasks s ! i) = 0 then
           (word_of_nat i,
            s\<lparr>tasks := (tasks s)[i := (tasks s ! i)
                 \<lparr>taskFunc := func, period_ms := period, delay_ms := period, isReady := 0\<rparr>]\<rparr>)
         else tmAddTask_loop (Suc i) func period s)
      else (- 1, s))"
  by pat_completeness auto
termination
  by (relation "measure (\<lambda>(i, func, period, s). MAX_TASKS - i)") auto

definition tmAddTask :: "fptr \<Rightarrow> 32 word \<Rightarrow> tm_state \<Rightarrow> 8 word \<times> tm_state" where
  "tmAddTask func period s = tmAddTask_loop 0 func period s"

function tmUpdateTask_loop :: "nat \<Rightarrow> fptr \<Rightarrow> 32 word \<Rightarrow> tm_state \<Rightarrow> 8 word \<times> tm_state" where
  "tmUpdateTask_loop i func period s =
     (if i < MAX_TASKS then
        (if taskFunc (tasks s ! i) = func then
           (0,
            s\<lparr>tasks := (tasks s)[i := (tasks s ! i)
                 \<lparr>period_ms := period, delay_ms := period, isReady := 0\<rparr>]\<rparr>)
         else tmUpdateTask_loop (Suc i) func period s)
      else (- 1, s))"
  by pat_completeness auto
termination
  by (relation "measure (\<lambda>(i, func, period, s). MAX_TASKS - i)") auto

definition tmUpdateTask :: "fptr \<Rightarrow> 32 word \<Rightarrow> tm_state \<Rightarrow> 8 word \<times> tm_state" where
  "tmUpdateTask func period s = tmUpdateTask_loop 0 func period s"

function tmDeleteTask_loop :: "nat \<Rightarrow> fptr \<Rightarrow> tm_state \<Rightarrow> 8 word \<times> tm_state" where
  "tmDeleteTask_loop i func s =
     (if i < MAX_TASKS then
        (if taskFunc (tasks s ! i) = func then
           (0, s\<lparr>tasks := (tasks s)[i := (tasks s ! i)\<lparr>taskFunc := 0\<rparr>]\<rparr>)
         else tmDeleteTask_loop (Suc i) func s)
      else (- 1, s))"
  by pat_completeness auto
termination
  by (relation "measure (\<lambda>(i, func, s). MAX_TASKS - i)") auto

definition tmDeleteTask :: "fptr \<Rightarrow> tm_state \<Rightarrow> 8 word \<times> tm_state" where
  "tmDeleteTask func s = tmDeleteTask_loop 0 func s"

subsection \<open>One-shot timers\<close>

text \<open>
  The first loop of \<^verbatim>\<open>tmTimerStartOnce\<close> returns from the function when it finds the
  callback (\<open>Some\<close> of the new state) and falls through to the second loop otherwise
  (\<open>None\<close>).
\<close>

function tmTimerStartOnce_find :: "nat \<Rightarrow> 32 word \<Rightarrow> fptr \<Rightarrow> tm_state \<Rightarrow> tm_state option" where
  "tmTimerStartOnce_find i dly func s =
     (if i < MAX_TIMERS then
        (if callback (timers s ! i) = func then
           (let s1 = s\<lparr>timers := (timers s)[i := (timers s ! i)\<lparr>delay := dly\<rparr>]\<rparr> in
            Some (if active (timers s1 ! i) = 0
                  then s1\<lparr>timers := (timers s1)[i := (timers s1 ! i)
                            \<lparr>active := 1, start_time := millis s1\<rparr>]\<rparr>
                  else s1))
         else tmTimerStartOnce_find (Suc i) dly func s)
      else None)"
  by pat_completeness auto
termination
  by (relation "measure (\<lambda>(i, dly, func, s). MAX_TIMERS - i)") auto

function tmTimerStartOnce_new :: "nat \<Rightarrow> 32 word \<Rightarrow> fptr \<Rightarrow> tm_state \<Rightarrow> 8 word \<times> tm_state" where
  "tmTimerStartOnce_new i dly func s =
     (if i < MAX_TIMERS then
        (if callback (timers s ! i) = 0 then
           (0,
            s\<lparr>timers := (timers s)[i := (timers s ! i)
                 \<lparr>active := 1, start_time := millis s, delay := dly, callback := func\<rparr>]\<rparr>)
         else tmTimerStartOnce_new (Suc i) dly func s)
      else (- 1, s))"
  by pat_completeness auto
termination
  by (relation "measure (\<lambda>(i, dly, func, s). MAX_TIMERS - i)") auto

definition tmTimerStartOnce :: "32 word \<Rightarrow> fptr \<Rightarrow> tm_state \<Rightarrow> 8 word \<times> tm_state" where
  "tmTimerStartOnce dly func s =
     (case tmTimerStartOnce_find 0 dly func s of
        Some s' \<Rightarrow> (0, s')
      | None \<Rightarrow> tmTimerStartOnce_new 0 dly func s)"

function tmTimerDelete_loop :: "nat \<Rightarrow> fptr \<Rightarrow> tm_state \<Rightarrow> 8 word \<times> tm_state" where
  "tmTimerDelete_loop i func s =
     (if i < MAX_TIMERS then
        (if callback (timers s ! i) = func then
           (0, s\<lparr>timers := (timers s)[i := (timers s ! i)\<lparr>callback := 0\<rparr>]\<rparr>)
         else tmTimerDelete_loop (Suc i) func s)
      else (- 1, s))"
  by pat_completeness auto
termination
  by (relation "measure (\<lambda>(i, func, s). MAX_TIMERS - i)") auto

definition tmTimerDelete :: "fptr \<Rightarrow> tm_state \<Rightarrow> 8 word \<times> tm_state" where
  "tmTimerDelete func s = tmTimerDelete_loop 0 func s"

text \<open>One iteration of the loop of \<^verbatim>\<open>tmTimerProcess\<close>, and the loop over all slots.\<close>

definition tmTimerProcess_step :: "nat \<Rightarrow> tm_state \<Rightarrow> tm_state" where
  "tmTimerProcess_step i s =
     (if active (timers s ! i) \<noteq> 0 \<and> millis s - start_time (timers s ! i) \<ge> delay (timers s ! i)
      then
        (let s1 = s\<lparr>timers := (timers s)[i := (timers s ! i)\<lparr>active := 0\<rparr>]\<rparr> in
         if callback (timers s1 ! i) \<noteq> 0 then call (callback (timers s1 ! i)) s1 else s1)
      else s)"

definition tmTimerProcess :: "tm_state \<Rightarrow> tm_state" where
  "tmTimerProcess s = fold tmTimerProcess_step [0..<MAX_TIMERS] s"

subsection \<open>Tick and Update\<close>

definition tmTick_step :: "nat \<Rightarrow> tm_state \<Rightarrow> tm_state" where
  "tmTick_step i s =
     (if taskFunc (tasks s ! i) \<noteq> 0 then
        (if delay_ms (tasks s ! i) > 0 then
           (let s1 = s\<lparr>tasks := (tasks s)[i := (tasks s ! i)
                         \<lparr>delay_ms := delay_ms (tasks s ! i) - 1\<rparr>]\<rparr> in
            if delay_ms (tasks s1 ! i) = 0
            then s1\<lparr>tasks := (tasks s1)[i := (tasks s1 ! i)
                      \<lparr>isReady := 1, delay_ms := period_ms (tasks s1 ! i)\<rparr>]\<rparr>
            else s1)
         else s)
      else s)"

definition tmTick :: "tm_state \<Rightarrow> tm_state" where
  "tmTick s =
     (let s1 = fold tmTick_step [0..<MAX_TASKS] s;
          s2 = tmTimerProcess s1
      in s2\<lparr>millis := millis s2 + 1\<rparr>)"

definition tmUpdate_step :: "nat \<Rightarrow> tm_state \<Rightarrow> tm_state" where
  "tmUpdate_step i s =
     (if taskFunc (tasks s ! i) \<noteq> 0 \<and> isReady (tasks s ! i) \<noteq> 0 then
        (let s1 = s\<lparr>tasks := (tasks s)[i := (tasks s ! i)\<lparr>isReady := 0\<rparr>]\<rparr>;
             s2 = call (taskFunc (tasks s1 ! i)) s1
         in s2\<lparr>taskExecuted := 1\<rparr>)
      else s)"

text \<open>
  \<^verbatim>\<open>taskExecuted\<close> is declared \<^verbatim>\<open>static\<close> inside \<^verbatim>\<open>tmUpdate\<close>: it is initialised once,
  when the program starts, and keeps its value from one call to the next.
\<close>

definition tmUpdate :: "tm_state \<Rightarrow> tm_state" where
  "tmUpdate s =
     (let s1 = fold tmUpdate_step [0..<MAX_TASKS] s in
      if taskExecuted s1 = 0 then sIdleTask s1 else s1)"

subsection \<open>The non-blocking delay\<close>

text \<open>
  \<^verbatim>\<open>tmDelay_ms\<close> reads and writes the caller's variable through a pointer: the model
  takes its value and returns the result with the value it holds afterwards.
\<close>

definition tmDelay_ms :: "32 word \<Rightarrow> 32 word \<Rightarrow> tm_state \<Rightarrow> bool \<times> 32 word" where
  "tmDelay_ms timestamp dly s =
     (if millis s - timestamp \<ge> dly then (True, millis s) else (False, timestamp))"

subsection \<open>What one loop iteration does to its slot\<close>

text \<open>
  The loops of \<^verbatim>\<open>tmTick\<close>, \<^verbatim>\<open>tmTimerProcess\<close> and \<^verbatim>\<open>tmUpdate\<close> visit every slot once
  and touch only the slot they visit. The functions below say what happens to one slot;
  the lemmas of the next section prove that the loops apply them to every slot.
\<close>

definition tick_slot :: "Task_s \<Rightarrow> Task_s" where
  "tick_slot t =
     (if taskFunc t \<noteq> 0 \<and> 0 < delay_ms t then
        (if delay_ms t - 1 = 0 then t\<lparr>isReady := 1, delay_ms := period_ms t\<rparr>
         else t\<lparr>delay_ms := delay_ms t - 1\<rparr>)
      else t)"

definition expired :: "32 word \<Rightarrow> OneShotTimer_s \<Rightarrow> bool" where
  "expired now t = (active t \<noteq> 0 \<and> delay t \<le> now - start_time t)"

definition process_slot :: "32 word \<Rightarrow> OneShotTimer_s \<Rightarrow> OneShotTimer_s" where
  "process_slot now t = (if expired now t then t\<lparr>active := 0\<rparr> else t)"

definition fired :: "32 word \<Rightarrow> OneShotTimer_s \<Rightarrow> event list" where
  "fired now t = (if expired now t \<and> callback t \<noteq> 0 then [Call (callback t)] else [])"

definition runnable :: "Task_s \<Rightarrow> bool" where
  "runnable t = (taskFunc t \<noteq> 0 \<and> isReady t \<noteq> 0)"

definition update_slot :: "Task_s \<Rightarrow> Task_s" where
  "update_slot t = (if runnable t then t\<lparr>isReady := 0\<rparr> else t)"

definition ran :: "Task_s \<Rightarrow> event list" where
  "ran t = (if runnable t then [Call (taskFunc t)] else [])"

subsection \<open>Sequences of calls\<close>

text \<open>\<^verbatim>\<open>tmAddTask\<close> called once for each element of a list, collecting the results.\<close>

fun tmAddTask_seq :: "(fptr \<times> 32 word) list \<Rightarrow> tm_state \<Rightarrow> 8 word list \<times> tm_state" where
  "tmAddTask_seq [] s = ([], s)"
| "tmAddTask_seq ((func, period) # cs) s =
     (let (r, s1) = tmAddTask func period s;
          (rs, s2) = tmAddTask_seq cs s1
      in (r # rs, s2))"

text \<open>
  A schedule is what the interrupt handler and the main loop do, in the order in which
  it happens: calls of \<^verbatim>\<open>tmTick\<close> and calls of \<^verbatim>\<open>tmUpdate\<close>.
\<close>

datatype tm_call = Tick | Update

fun exec :: "tm_call \<Rightarrow> tm_state \<Rightarrow> tm_state" where
  "exec Tick s = tmTick s"
| "exec Update s = tmUpdate s"

definition run :: "tm_call list \<Rightarrow> tm_state \<Rightarrow> tm_state" where
  "run cs s = fold exec cs s"

subsection \<open>The states the module can reach\<close>

text \<open>
  The storage is private to the C file, so a state arises from the initial one through
  the functions that the header declares. In such a state no two timer slots hold the
  same non-null callback: \<^verbatim>\<open>tmTimerStartOnce\<close> looks for the callback before it takes a
  free slot.
\<close>

definition timers_unique :: "tm_state \<Rightarrow> bool" where
  "timers_unique s =
     (\<forall>i<MAX_TIMERS. \<forall>j<MAX_TIMERS.
        callback (timers s ! i) \<noteq> 0 \<and> callback (timers s ! i) = callback (timers s ! j) \<longrightarrow> i = j)"

inductive reachable :: "tm_state \<Rightarrow> bool" where
  reach_init: "reachable tm_init"
| reach_AddTask: "reachable s \<Longrightarrow> reachable (snd (tmAddTask func period s))"
| reach_UpdateTask: "reachable s \<Longrightarrow> reachable (snd (tmUpdateTask func period s))"
| reach_DeleteTask: "reachable s \<Longrightarrow> reachable (snd (tmDeleteTask func s))"
| reach_Tick: "reachable s \<Longrightarrow> reachable (tmTick s)"
| reach_Update: "reachable s \<Longrightarrow> reachable (tmUpdate s)"
| reach_TimerStartOnce: "reachable s \<Longrightarrow> reachable (snd (tmTimerStartOnce dly func s))"
| reach_TimerDelete: "reachable s \<Longrightarrow> reachable (snd (tmTimerDelete func s))"
| reach_TimerProcess: "reachable s \<Longrightarrow> reachable (tmTimerProcess s)"

section \<open>The loops, slot by slot\<close>

lemma upd_take_drop:
  "n < length xs \<Longrightarrow>
   (map g (take n xs) @ drop n xs)[n := g (xs ! n)] = map g (take (Suc n) xs) @ drop (Suc n) xs"
  by (simp add: take_Suc_conv_app_nth list_update_append Cons_nth_drop_Suc [symmetric])

lemma nth_take_drop: "n < length xs \<Longrightarrow> (map g (take n xs) @ drop n xs) ! n = xs ! n"
  by (simp add: nth_append)

lemma tmTick_step_eq:
  "tmTick_step i s = s\<lparr>tasks := (tasks s)[i := tick_slot (tasks s ! i)]\<rparr>"
  if "i < length (tasks s)"
  using that by (simp add: tmTick_step_def tick_slot_def Let_def)

lemma tmTick_fold:
  "n \<le> length (tasks s) \<Longrightarrow>
   fold tmTick_step [0..<n] s = s\<lparr>tasks := map tick_slot (take n (tasks s)) @ drop n (tasks s)\<rparr>"
proof (induction n)
  case 0
  show ?case by simp
next
  case (Suc n)
  then have n: "n < length (tasks s)" by simp
  show ?case
    using Suc.IH n by (simp add: tmTick_step_eq nth_take_drop upd_take_drop)
qed

lemma tmTimerProcess_step_eq:
  "tmTimerProcess_step i s =
     s\<lparr>timers := (timers s)[i := process_slot (millis s) (timers s ! i)],
       trace := trace s @ fired (millis s) (timers s ! i)\<rparr>"
  if "i < length (timers s)"
  using that
  by (simp add: tmTimerProcess_step_def process_slot_def fired_def expired_def call_def Let_def)

lemma tmTimerProcess_fold:
  "n \<le> length (timers s) \<Longrightarrow>
   fold tmTimerProcess_step [0..<n] s =
     s\<lparr>timers := map (process_slot (millis s)) (take n (timers s)) @ drop n (timers s),
       trace := trace s @ concat (map (fired (millis s)) (take n (timers s)))\<rparr>"
proof (induction n)
  case 0
  show ?case by simp
next
  case (Suc n)
  then have n: "n < length (timers s)" by simp
  show ?case
    using Suc.IH n
    by (simp add: tmTimerProcess_step_eq nth_take_drop upd_take_drop take_Suc_conv_app_nth)
qed

lemma tmUpdate_step_eq:
  "tmUpdate_step i s =
     s\<lparr>tasks := (tasks s)[i := update_slot (tasks s ! i)],
       trace := trace s @ ran (tasks s ! i),
       taskExecuted := (if runnable (tasks s ! i) then 1 else taskExecuted s)\<rparr>"
  if "i < length (tasks s)"
  using that
  by (simp add: tmUpdate_step_def update_slot_def ran_def runnable_def call_def Let_def)

lemma tmUpdate_fold:
  "n \<le> length (tasks s) \<Longrightarrow>
   fold tmUpdate_step [0..<n] s =
     s\<lparr>tasks := map update_slot (take n (tasks s)) @ drop n (tasks s),
       trace := trace s @ concat (map ran (take n (tasks s))),
       taskExecuted := (if list_ex runnable (take n (tasks s)) then 1 else taskExecuted s)\<rparr>"
proof (induction n)
  case 0
  show ?case by simp
next
  case (Suc n)
  then have n: "n < length (tasks s)" by simp
  show ?case
    using Suc.IH n
    by (simp add: tmUpdate_step_eq nth_take_drop upd_take_drop take_Suc_conv_app_nth)
qed

lemma tmTimerProcess_eq:
  "wf_state s \<Longrightarrow>
   tmTimerProcess s =
     s\<lparr>timers := map (process_slot (millis s)) (timers s),
       trace := trace s @ concat (map (fired (millis s)) (timers s))\<rparr>"
  by (simp add: tmTimerProcess_def wf_state_def tmTimerProcess_fold)

lemma tmTick_eq:
  "wf_state s \<Longrightarrow>
   tmTick s =
     s\<lparr>tasks := map tick_slot (tasks s),
       timers := map (process_slot (millis s)) (timers s),
       millis := millis s + 1,
       trace := trace s @ concat (map (fired (millis s)) (timers s))\<rparr>"
  by (simp add: tmTick_def wf_state_def tmTimerProcess_def tmTimerProcess_fold tmTick_fold)

lemma tmUpdate_eq:
  "wf_state s \<Longrightarrow>
   tmUpdate s =
     s\<lparr>tasks := map update_slot (tasks s),
       trace := trace s @ concat (map ran (tasks s)) @
                (if \<not> list_ex runnable (tasks s) \<and> taskExecuted s = 0 then [Idle] else []),
       taskExecuted := (if list_ex runnable (tasks s) then 1 else taskExecuted s)\<rparr>"
  by (simp add: tmUpdate_def wf_state_def tmUpdate_fold Let_def sIdleTask_def)

lemma wf_tmTick: "wf_state s \<Longrightarrow> wf_state (tmTick s)"
  by (simp add: tmTick_eq) (simp add: wf_state_def)

lemma wf_tmUpdate: "wf_state s \<Longrightarrow> wf_state (tmUpdate s)"
  by (simp add: tmUpdate_eq) (simp add: wf_state_def sIdleTask_def Let_def)

subsection \<open>The search loops of the task table\<close>

declare tmAddTask_loop.simps [simp del] tmUpdateTask_loop.simps [simp del]
  tmDeleteTask_loop.simps [simp del] tmTimerStartOnce_find.simps [simp del]
  tmTimerStartOnce_new.simps [simp del] tmTimerDelete_loop.simps [simp del]

lemma tmAddTask_loop_skip:
  "i < MAX_TASKS \<Longrightarrow> taskFunc (tasks s ! i) \<noteq> 0 \<Longrightarrow>
   tmAddTask_loop i func period s = tmAddTask_loop (Suc i) func period s"
  by (subst tmAddTask_loop.simps) simp

lemma tmAddTask_loop_hit:
  "i < MAX_TASKS \<Longrightarrow> taskFunc (tasks s ! i) = 0 \<Longrightarrow>
   tmAddTask_loop i func period s =
     (word_of_nat i,
      s\<lparr>tasks := (tasks s)[i := (tasks s ! i)
           \<lparr>taskFunc := func, period_ms := period, delay_ms := period, isReady := 0\<rparr>]\<rparr>)"
  by (subst tmAddTask_loop.simps) simp

lemma tmAddTask_loop_end:
  "\<not> i < MAX_TASKS \<Longrightarrow> tmAddTask_loop i func period s = (- 1, s)"
  by (subst tmAddTask_loop.simps) simp

lemma tmAddTask_loop_found:
  "i \<le> k \<Longrightarrow> k < MAX_TASKS \<Longrightarrow> taskFunc (tasks s ! k) = 0 \<Longrightarrow>
   (\<And>j. i \<le> j \<Longrightarrow> j < k \<Longrightarrow> taskFunc (tasks s ! j) \<noteq> 0) \<Longrightarrow>
   tmAddTask_loop i func period s =
     (word_of_nat k,
      s\<lparr>tasks := (tasks s)[k := (tasks s ! k)
           \<lparr>taskFunc := func, period_ms := period, delay_ms := period, isReady := 0\<rparr>]\<rparr>)"
proof (induction "k - i" arbitrary: i)
  case 0
  then have "i = k" by simp
  with 0 show ?case by (simp add: tmAddTask_loop_hit)
next
  case (Suc d)
  then have ik: "i < k" by simp
  have "tmAddTask_loop i func period s = tmAddTask_loop (Suc i) func period s"
    using ik Suc.prems by (intro tmAddTask_loop_skip) auto
  also have "\<dots> =
     (word_of_nat k,
      s\<lparr>tasks := (tasks s)[k := (tasks s ! k)
           \<lparr>taskFunc := func, period_ms := period, delay_ms := period, isReady := 0\<rparr>]\<rparr>)"
    using Suc ik by (intro Suc.hyps(1)) auto
  finally show ?case .
qed

lemma tmAddTask_loop_full:
  "(\<And>j. i \<le> j \<Longrightarrow> j < MAX_TASKS \<Longrightarrow> taskFunc (tasks s ! j) \<noteq> 0) \<Longrightarrow>
   tmAddTask_loop i func period s = (- 1, s)"
proof (induction "MAX_TASKS - i" arbitrary: i)
  case 0
  then show ?case by (simp add: tmAddTask_loop_end)
next
  case (Suc d)
  then have lt: "i < MAX_TASKS" by simp
  have "tmAddTask_loop i func period s = tmAddTask_loop (Suc i) func period s"
    using lt Suc.prems by (intro tmAddTask_loop_skip) auto
  also have "\<dots> = (- 1, s)"
    using Suc lt by (intro Suc.hyps(1)) auto
  finally show ?case .
qed

lemma sint_slot_index: "k < MAX_TASKS \<Longrightarrow> sint (word_of_nat k :: 8 word) = int k"
  by (simp add: MAX_TASKS_def signed_of_nat signed_take_bit_int_eq_self)

lemma tmAddTask_first_free:
  assumes "k < MAX_TASKS" "taskFunc (tasks s ! k) = 0" "\<forall>j<k. taskFunc (tasks s ! j) \<noteq> 0"
  shows "tmAddTask func period s =
     (word_of_nat k,
      s\<lparr>tasks := (tasks s)[k := (tasks s ! k)
           \<lparr>taskFunc := func, period_ms := period, delay_ms := period, isReady := 0\<rparr>]\<rparr>)"
  unfolding tmAddTask_def using assms by (intro tmAddTask_loop_found) auto

lemma tmAddTask_table_full:
  assumes "\<forall>j<MAX_TASKS. taskFunc (tasks s ! j) \<noteq> 0"
  shows "tmAddTask func period s = (- 1, s)"
  unfolding tmAddTask_def using assms by (intro tmAddTask_loop_full) auto

lemma tmAddTask_seq_prefix:
  "length (tasks s) = MAX_TASKS \<Longrightarrow> k + length cs \<le> MAX_TASKS \<Longrightarrow>
   \<forall>j<k. taskFunc (tasks s ! j) \<noteq> 0 \<Longrightarrow>
   \<forall>j. k \<le> j \<and> j < MAX_TASKS \<longrightarrow> taskFunc (tasks s ! j) = 0 \<Longrightarrow>
   0 \<notin> fst ` set cs \<Longrightarrow>
   fst (tmAddTask_seq cs s) = map word_of_nat [k..<k + length cs] \<and>
   length (tasks (snd (tmAddTask_seq cs s))) = MAX_TASKS \<and>
   (\<forall>j<k + length cs. taskFunc (tasks (snd (tmAddTask_seq cs s)) ! j) \<noteq> 0) \<and>
   (\<forall>j. k + length cs \<le> j \<and> j < MAX_TASKS \<longrightarrow> taskFunc (tasks (snd (tmAddTask_seq cs s)) ! j) = 0)"
proof (induction cs arbitrary: k s)
  case Nil
  then show ?case by simp
next
  case (Cons c cs)
  obtain func period where c: "c = (func, period)" by (cases c)
  from Cons.prems c have f0: "func \<noteq> 0" and k: "k < MAX_TASKS" by auto
  let ?s1 = "s\<lparr>tasks := (tasks s)[k := (tasks s ! k)
           \<lparr>taskFunc := func, period_ms := period, delay_ms := period, isReady := 0\<rparr>]\<rparr>"
  have add: "tmAddTask func period s = (word_of_nat k, ?s1)"
    using Cons.prems k by (intro tmAddTask_first_free) auto
  have IH: "fst (tmAddTask_seq cs ?s1) = map word_of_nat [Suc k..<Suc k + length cs] \<and>
   length (tasks (snd (tmAddTask_seq cs ?s1))) = MAX_TASKS \<and>
   (\<forall>j<Suc k + length cs. taskFunc (tasks (snd (tmAddTask_seq cs ?s1)) ! j) \<noteq> 0) \<and>
   (\<forall>j. Suc k + length cs \<le> j \<and> j < MAX_TASKS \<longrightarrow> taskFunc (tasks (snd (tmAddTask_seq cs ?s1)) ! j) = 0)"
  proof (rule Cons.IH)
    show "length (tasks ?s1) = MAX_TASKS" using Cons.prems by simp
    show "Suc k + length cs \<le> MAX_TASKS" using Cons.prems by simp
    show "\<forall>j<Suc k. taskFunc (tasks ?s1 ! j) \<noteq> 0"
      using Cons.prems k f0 by (auto simp: nth_list_update less_Suc_eq)
    show "\<forall>j. Suc k \<le> j \<and> j < MAX_TASKS \<longrightarrow> taskFunc (tasks ?s1 ! j) = 0"
      using Cons.prems k by (auto simp: nth_list_update)
    show "0 \<notin> fst ` set cs" using Cons.prems by auto
  qed
  have upt: "[k..<k + length (c # cs)] = k # [Suc k..<Suc k + length cs]"
    by (simp add: upt_conv_Cons del: upt_Suc)
  show ?case
    using IH unfolding upt by (simp add: c add split_beta del: upt_Suc)
qed

lemma wf_tm_init: "wf_state tm_init"
  by (simp add: wf_state_def tm_init_def)

lemma tm_init_empty: "\<forall>j<MAX_TASKS. taskFunc (tasks tm_init ! j) = 0"
  by (simp add: tm_init_def)

subsection \<open>The clock\<close>

lemma millis_tmTick_step: "millis (tmTick_step i s) = millis s"
  by (simp add: tmTick_step_def Let_def)

lemma millis_tmTimerProcess_step: "millis (tmTimerProcess_step i s) = millis s"
  by (simp add: tmTimerProcess_step_def call_def Let_def)

lemma millis_fold_tmTick_step: "millis (fold tmTick_step xs s) = millis s"
  by (induction xs arbitrary: s) (simp_all add: millis_tmTick_step)

lemma millis_fold_tmTimerProcess_step: "millis (fold tmTimerProcess_step xs s) = millis s"
  by (induction xs arbitrary: s) (simp_all add: millis_tmTimerProcess_step)

lemma millis_tmTick: "millis (tmTick s) = millis s + 1"
  by (simp add: tmTick_def tmTimerProcess_def Let_def millis_fold_tmTick_step
      millis_fold_tmTimerProcess_step)

lemma millis_tmTick_pow: "millis ((tmTick ^^ k) s) = millis s + of_nat k"
  by (induction k) (simp_all add: millis_tmTick)

lemma wf_tmTick_pow: "wf_state s \<Longrightarrow> wf_state ((tmTick ^^ k) s)"
  by (induction k) (simp_all add: wf_tmTick)

lemma fired_concat:
  "concat (map (fired now) ts) =
   map (\<lambda>t. Call (callback t))
     (filter (\<lambda>t. active t \<noteq> 0 \<and> delay t \<le> now - start_time t \<and> callback t \<noteq> 0) ts)"
  by (induction ts) (simp_all add: fired_def expired_def)

subsection \<open>The first slot with a property\<close>

lemma first_index_cases:
  "(\<exists>k<n. P k \<and> (\<forall>j<k. \<not> P j)) \<or> (\<forall>j<n. \<not> P j)" for n :: nat
proof (cases "\<exists>j<n. P j")
  case True
  then obtain j where j: "j < n" "P j" by blast
  define k where "k = (LEAST i. P i)"
  have "P k" unfolding k_def using j(2) by (rule LeastI)
  moreover have "k \<le> j" unfolding k_def using j(2) by (rule Least_le)
  moreover have "\<forall>i<k. \<not> P i" unfolding k_def using not_less_Least by blast
  ultimately have "k < n \<and> P k \<and> (\<forall>i<k. \<not> P i)" using j(1) by simp
  then show ?thesis by blast
next
  case False
  then show ?thesis by blast
qed

lemma slot_index_not_error: "k < MAX_TASKS \<Longrightarrow> (word_of_nat k :: 8 word) \<noteq> - 1"
proof
  assume k: "k < MAX_TASKS" and eq: "(word_of_nat k :: 8 word) = - 1"
  have "sint (word_of_nat k :: 8 word) = int k" using k by (rule sint_slot_index)
  with eq show False by simp
qed

lemma unat_slot_index: "k < MAX_TASKS \<Longrightarrow> unat (word_of_nat k :: 8 word) = k"
  by (simp add: MAX_TASKS_def unat_of_nat)

lemma tmAddTask_success:
  assumes "tmAddTask func period s = (r, s1)" and "r \<noteq> - 1"
  shows "unat r < MAX_TASKS \<and> sint r = int (unat r) \<and>
         taskFunc (tasks s ! unat r) = 0 \<and> (\<forall>j<unat r. taskFunc (tasks s ! j) \<noteq> 0) \<and>
         s1 = s\<lparr>tasks := (tasks s)[unat r := (tasks s ! unat r)
           \<lparr>taskFunc := func, period_ms := period, delay_ms := period, isReady := 0\<rparr>]\<rparr>"
proof -
  consider k where "k < MAX_TASKS" "taskFunc (tasks s ! k) = 0" "\<forall>j<k. taskFunc (tasks s ! j) \<noteq> 0"
    | "\<forall>j<MAX_TASKS. taskFunc (tasks s ! j) \<noteq> 0"
    using first_index_cases [of MAX_TASKS "\<lambda>i. taskFunc (tasks s ! i) = 0"] by blast
  then show ?thesis
  proof cases
    case 1
    have "tmAddTask func period s =
     (word_of_nat k,
      s\<lparr>tasks := (tasks s)[k := (tasks s ! k)
           \<lparr>taskFunc := func, period_ms := period, delay_ms := period, isReady := 0\<rparr>]\<rparr>)"
      using 1 by (rule tmAddTask_first_free)
    with assms(1) have r: "r = word_of_nat k" and s1: "s1 = s\<lparr>tasks := (tasks s)[k := (tasks s ! k)
           \<lparr>taskFunc := func, period_ms := period, delay_ms := period, isReady := 0\<rparr>]\<rparr>"
      by simp_all
    have "unat r = k" using 1(1) r by (simp add: unat_slot_index)
    then show ?thesis using 1 r s1 by (simp add: sint_slot_index)
  next
    case 2
    then have "tmAddTask func period s = (- 1, s)" by (rule tmAddTask_table_full)
    with assms show ?thesis by simp
  qed
qed

subsection \<open>Ticks and a task slot\<close>

lemma tasks_tmTick: "wf_state s \<Longrightarrow> tasks (tmTick s) = map tick_slot (tasks s)"
  by (simp add: tmTick_eq)

lemma tick_slot_idle: "delay_ms t = 0 \<Longrightarrow> tick_slot t = t"
  by (simp add: tick_slot_def)

lemma tmTick_pow_idle_slot:
  "wf_state s \<Longrightarrow> k < MAX_TASKS \<Longrightarrow> delay_ms (tasks s ! k) = 0 \<Longrightarrow>
   tasks ((tmTick ^^ n) s) ! k = tasks s ! k"
proof (induction n)
  case 0
  show ?case by simp
next
  case (Suc n)
  have wf: "wf_state ((tmTick ^^ n) s)" using Suc.prems(1) by (rule wf_tmTick_pow)
  then have len: "k < length (tasks ((tmTick ^^ n) s))"
    using Suc.prems(2) by (simp add: wf_state_def)
  have "tasks ((tmTick ^^ Suc n) s) ! k = tick_slot (tasks ((tmTick ^^ n) s) ! k)"
    using wf len by (simp add: tasks_tmTick)
  also have "\<dots> = tick_slot (tasks s ! k)" using Suc by simp
  also have "\<dots> = tasks s ! k" using Suc.prems(3) by (rule tick_slot_idle)
  finally show ?case .
qed

subsection \<open>The search loop of tmUpdateTask\<close>

lemma tmUpdateTask_loop_skip:
  "i < MAX_TASKS \<Longrightarrow> taskFunc (tasks s ! i) \<noteq> func \<Longrightarrow>
   tmUpdateTask_loop i func period s = tmUpdateTask_loop (Suc i) func period s"
  by (subst tmUpdateTask_loop.simps) simp

lemma tmUpdateTask_loop_hit:
  "i < MAX_TASKS \<Longrightarrow> taskFunc (tasks s ! i) = func \<Longrightarrow>
   tmUpdateTask_loop i func period s =
     (0, s\<lparr>tasks := (tasks s)[i := (tasks s ! i)
           \<lparr>period_ms := period, delay_ms := period, isReady := 0\<rparr>]\<rparr>)"
  by (subst tmUpdateTask_loop.simps) simp

lemma tmUpdateTask_loop_end:
  "\<not> i < MAX_TASKS \<Longrightarrow> tmUpdateTask_loop i func period s = (- 1, s)"
  by (subst tmUpdateTask_loop.simps) simp

lemma tmUpdateTask_loop_found:
  "i \<le> k \<Longrightarrow> k < MAX_TASKS \<Longrightarrow> taskFunc (tasks s ! k) = func \<Longrightarrow>
   (\<And>j. i \<le> j \<Longrightarrow> j < k \<Longrightarrow> taskFunc (tasks s ! j) \<noteq> func) \<Longrightarrow>
   tmUpdateTask_loop i func period s =
     (0, s\<lparr>tasks := (tasks s)[k := (tasks s ! k)
           \<lparr>period_ms := period, delay_ms := period, isReady := 0\<rparr>]\<rparr>)"
proof (induction "k - i" arbitrary: i)
  case 0
  then have "i = k" by simp
  with 0 show ?case by (simp add: tmUpdateTask_loop_hit)
next
  case (Suc d)
  then have ik: "i < k" by simp
  have "tmUpdateTask_loop i func period s = tmUpdateTask_loop (Suc i) func period s"
    using ik Suc.prems by (intro tmUpdateTask_loop_skip) auto
  also have "\<dots> =
     (0, s\<lparr>tasks := (tasks s)[k := (tasks s ! k)
           \<lparr>period_ms := period, delay_ms := period, isReady := 0\<rparr>]\<rparr>)"
    using Suc ik by (intro Suc.hyps(1)) auto
  finally show ?case .
qed

lemma tmUpdateTask_loop_none:
  "(\<And>j. i \<le> j \<Longrightarrow> j < MAX_TASKS \<Longrightarrow> taskFunc (tasks s ! j) \<noteq> func) \<Longrightarrow>
   tmUpdateTask_loop i func period s = (- 1, s)"
proof (induction "MAX_TASKS - i" arbitrary: i)
  case 0
  then show ?case by (simp add: tmUpdateTask_loop_end)
next
  case (Suc d)
  then have lt: "i < MAX_TASKS" by simp
  have "tmUpdateTask_loop i func period s = tmUpdateTask_loop (Suc i) func period s"
    using lt Suc.prems by (intro tmUpdateTask_loop_skip) auto
  also have "\<dots> = (- 1, s)"
    using Suc lt by (intro Suc.hyps(1)) auto
  finally show ?case .
qed

subsection \<open>Ticks and a timer slot\<close>

lemma timers_tmTick: "wf_state s \<Longrightarrow> timers (tmTick s) = map (process_slot (millis s)) (timers s)"
  by (simp add: tmTick_eq)

lemma trace_tmTick:
  "wf_state s \<Longrightarrow> trace (tmTick s) = trace s @ concat (map (fired (millis s)) (timers s))"
  by (simp add: tmTick_eq)

lemma callback_process_slot: "callback (process_slot now t) = callback t"
  by (simp add: process_slot_def)

lemma count_fired_other:
  "\<forall>t\<in>set ts. callback t \<noteq> f \<Longrightarrow> count_list (concat (map (fired now) ts)) (Call f) = 0"
  by (induction ts) (simp_all add: fired_def)

lemma count_fired_slot:
  assumes "k < length ts" and "callback (ts ! k) = f" and "f \<noteq> 0"
    and "\<forall>j<length ts. j \<noteq> k \<longrightarrow> callback (ts ! j) \<noteq> f"
  shows "count_list (concat (map (fired now) ts)) (Call f) = (if expired now (ts ! k) then 1 else 0)"
proof -
  have split: "ts = take k ts @ ts ! k # drop (Suc k) ts"
    using assms(1) by (rule id_take_nth_drop)
  have before: "\<forall>t\<in>set (take k ts). callback t \<noteq> f"
  proof
    fix t assume "t \<in> set (take k ts)"
    then obtain j where "j < length (take k ts)" "take k ts ! j = t"
      by (auto simp: in_set_conv_nth)
    then have "j < k" "j < length ts" "ts ! j = t" using assms(1) by simp_all
    then show "callback t \<noteq> f" using assms(4) by auto
  qed
  have after: "\<forall>t\<in>set (drop (Suc k) ts). callback t \<noteq> f"
  proof
    fix t assume "t \<in> set (drop (Suc k) ts)"
    then obtain j where "j < length (drop (Suc k) ts)" "drop (Suc k) ts ! j = t"
      by (auto simp: in_set_conv_nth)
    then have "Suc k + j < length ts" "ts ! (Suc k + j) = t" using assms(1) by simp_all
    then show "callback t \<noteq> f" using assms(4) by auto
  qed
  have "count_list (concat (map (fired now) ts)) (Call f) =
        count_list (concat (map (fired now) (take k ts))) (Call f) +
        count_list (fired now (ts ! k)) (Call f) +
        count_list (concat (map (fired now) (drop (Suc k) ts))) (Call f)"
    by (subst split) simp
  also have "\<dots> = count_list (fired now (ts ! k)) (Call f)"
    using before after by (simp add: count_fired_other)
  also have "\<dots> = (if expired now (ts ! k) then 1 else 0)"
    using assms(2,3) by (simp add: fired_def)
  finally show ?thesis .
qed

text \<open>One tick, seen from the only timer slot that holds the callback.\<close>

lemma tmTick_timer_slot:
  assumes "wf_state s" and "k < MAX_TIMERS" and "callback (timers s ! k) = f" and "f \<noteq> 0"
    and "\<forall>j<MAX_TIMERS. j \<noteq> k \<longrightarrow> callback (timers s ! j) \<noteq> f"
  shows "timers (tmTick s) ! k = process_slot (millis s) (timers s ! k)"
    and "count_list (trace (tmTick s)) (Call f) =
         count_list (trace s) (Call f) + (if expired (millis s) (timers s ! k) then 1 else 0)"
    and "\<forall>j<MAX_TIMERS. j \<noteq> k \<longrightarrow> callback (timers (tmTick s) ! j) \<noteq> f"
proof -
  have len: "length (timers s) = MAX_TIMERS" using assms(1) by (simp add: wf_state_def)
  show "timers (tmTick s) ! k = process_slot (millis s) (timers s ! k)"
    using assms(1,2) len by (simp add: timers_tmTick)
  show "count_list (trace (tmTick s)) (Call f) =
         count_list (trace s) (Call f) + (if expired (millis s) (timers s ! k) then 1 else 0)"
    using assms len by (simp add: trace_tmTick count_fired_slot)
  show "\<forall>j<MAX_TIMERS. j \<noteq> k \<longrightarrow> callback (timers (tmTick s) ! j) \<noteq> f"
    using assms len by (simp add: timers_tmTick callback_process_slot)
qed

lemma unat_elapsed_add:
  fixes now start :: "32 word"
  assumes "unat (now - start) + n < 2 ^ 32"
  shows "unat (now + word_of_nat n - start) = unat (now - start) + n"
proof -
  have eq: "now + word_of_nat n - start = (now - start) + word_of_nat n" by simp
  have "unat ((now - start) + word_of_nat n) = unat (now - start) + n"
    using assms by (simp add: unat_word_ariths unat_of_nat)
  then show ?thesis by (simp only: eq)
qed

text \<open>
  An active timer whose callback no other slot holds: with \<open>e\<close> the time elapsed since
  its start and \<open>D\<close> its delay, the first \<open>D - e\<close> ticks leave it alone and the next one
  fires it, once.
\<close>

lemma timer_countdown:
  assumes wf: "wf_state s" and k: "k < MAX_TIMERS" and cb: "callback (timers s ! k) = f"
    and f: "f \<noteq> 0" and uniq: "\<forall>j<MAX_TIMERS. j \<noteq> k \<longrightarrow> callback (timers s ! j) \<noteq> f"
    and act: "active (timers s ! k) \<noteq> 0"
  shows "(n \<le> unat (delay (timers s ! k)) - unat (millis s - start_time (timers s ! k)) \<longrightarrow>
            timers ((tmTick ^^ n) s) ! k = timers s ! k \<and>
            count_list (trace ((tmTick ^^ n) s)) (Call f) = count_list (trace s) (Call f)) \<and>
         (unat (delay (timers s ! k)) - unat (millis s - start_time (timers s ! k)) < n \<longrightarrow>
            timers ((tmTick ^^ n) s) ! k = (timers s ! k)\<lparr>active := 0\<rparr> \<and>
            count_list (trace ((tmTick ^^ n) s)) (Call f) = Suc (count_list (trace s) (Call f))) \<and>
         (\<forall>j<MAX_TIMERS. j \<noteq> k \<longrightarrow> callback (timers ((tmTick ^^ n) s) ! j) \<noteq> f)"
proof (induction n)
  case 0
  show ?case using uniq by simp
next
  case (Suc n)
  let ?t = "timers s ! k"
  let ?e = "unat (millis s - start_time ?t)"
  let ?D = "unat (delay ?t)"
  let ?sn = "(tmTick ^^ n) s"
  have wfn: "wf_state ?sn" using wf by (rule wf_tmTick_pow)
  have mn: "millis ?sn = millis s + word_of_nat n" by (rule millis_tmTick_pow)
  from Suc.IH have uniqn: "\<forall>j<MAX_TIMERS. j \<noteq> k \<longrightarrow> callback (timers ?sn ! j) \<noteq> f" by blast
  have D: "?D < 2 ^ 32" using unsigned_less [of "delay ?t", where 'a = nat] by simp
  show ?case
  proof (cases "n \<le> ?D - ?e")
    case True
    with Suc.IH have slot: "timers ?sn ! k = ?t"
      and cnt: "count_list (trace ?sn) (Call f) = count_list (trace s) (Call f)" by simp_all
    have cbn: "callback (timers ?sn ! k) = f" using slot cb by simp
    note step = tmTick_timer_slot [OF wfn k cbn f uniqn]
    show ?thesis
    proof (cases "n < ?D - ?e")
      case less: True
      then have "?e + n < 2 ^ 32" "?e + n < ?D" using D by simp_all
      then have "unat (millis ?sn - start_time ?t) < ?D"
        by (simp add: mn unat_elapsed_add)
      then have "\<not> expired (millis ?sn) ?t"
        by (simp add: expired_def word_le_nat_alt)
      then show ?thesis
        using step less slot cnt by (simp add: process_slot_def)
    next
      case False
      with True have n: "n = ?D - ?e" by simp
      have "?D \<le> unat (millis ?sn - start_time ?t)"
      proof (cases "?D \<le> ?e")
        case True
        with n have "n = 0" by simp
        with True show ?thesis by simp
      next
        case False
        with n have "?e + n = ?D" by simp
        with D have "unat (millis ?sn - start_time ?t) = ?D"
          by (simp add: mn unat_elapsed_add)
        then show ?thesis by simp
      qed
      then have "expired (millis ?sn) ?t"
        using act by (simp add: expired_def word_le_nat_alt)
      then show ?thesis
        using step n slot cnt by (simp add: process_slot_def)
    qed
  next
    case False
    with Suc.IH have slot: "timers ?sn ! k = ?t\<lparr>active := 0\<rparr>"
      and cnt: "count_list (trace ?sn) (Call f) = Suc (count_list (trace s) (Call f))" by simp_all
    have cbn: "callback (timers ?sn ! k) = f" using slot cb by simp
    note step = tmTick_timer_slot [OF wfn k cbn f uniqn]
    have "\<not> expired (millis ?sn) (timers ?sn ! k)" by (simp add: slot expired_def)
    then show ?thesis
      using step False slot cnt by (simp add: process_slot_def)
  qed
qed

subsection \<open>The two loops of tmTimerStartOnce\<close>

lemma tmTimerStartOnce_find_skip:
  "i < MAX_TIMERS \<Longrightarrow> callback (timers s ! i) \<noteq> func \<Longrightarrow>
   tmTimerStartOnce_find i dly func s = tmTimerStartOnce_find (Suc i) dly func s"
  by (subst tmTimerStartOnce_find.simps) simp

lemma tmTimerStartOnce_find_hit:
  "i < MAX_TIMERS \<Longrightarrow> i < length (timers s) \<Longrightarrow> callback (timers s ! i) = func \<Longrightarrow>
   tmTimerStartOnce_find i dly func s =
     Some (s\<lparr>timers := (timers s)[i :=
        (if active (timers s ! i) = 0
         then (timers s ! i)\<lparr>delay := dly, active := 1, start_time := millis s\<rparr>
         else (timers s ! i)\<lparr>delay := dly\<rparr>)]\<rparr>)"
  by (subst tmTimerStartOnce_find.simps) (simp add: Let_def)

lemma tmTimerStartOnce_find_end:
  "\<not> i < MAX_TIMERS \<Longrightarrow> tmTimerStartOnce_find i dly func s = None"
  by (subst tmTimerStartOnce_find.simps) simp

lemma tmTimerStartOnce_find_found:
  "i \<le> k \<Longrightarrow> k < MAX_TIMERS \<Longrightarrow> k < length (timers s) \<Longrightarrow> callback (timers s ! k) = func \<Longrightarrow>
   (\<And>j. i \<le> j \<Longrightarrow> j < k \<Longrightarrow> callback (timers s ! j) \<noteq> func) \<Longrightarrow>
   tmTimerStartOnce_find i dly func s =
     Some (s\<lparr>timers := (timers s)[k :=
        (if active (timers s ! k) = 0
         then (timers s ! k)\<lparr>delay := dly, active := 1, start_time := millis s\<rparr>
         else (timers s ! k)\<lparr>delay := dly\<rparr>)]\<rparr>)"
proof (induction "k - i" arbitrary: i)
  case 0
  then have "i = k" by simp
  with 0 show ?case by (simp add: tmTimerStartOnce_find_hit)
next
  case (Suc d)
  then have ik: "i < k" by simp
  have "tmTimerStartOnce_find i dly func s = tmTimerStartOnce_find (Suc i) dly func s"
    using ik Suc.prems by (intro tmTimerStartOnce_find_skip) auto
  also have "\<dots> =
     Some (s\<lparr>timers := (timers s)[k :=
        (if active (timers s ! k) = 0
         then (timers s ! k)\<lparr>delay := dly, active := 1, start_time := millis s\<rparr>
         else (timers s ! k)\<lparr>delay := dly\<rparr>)]\<rparr>)"
    using Suc ik by (intro Suc.hyps(1)) auto
  finally show ?case .
qed

lemma tmTimerStartOnce_find_none:
  "(\<And>j. i \<le> j \<Longrightarrow> j < MAX_TIMERS \<Longrightarrow> callback (timers s ! j) \<noteq> func) \<Longrightarrow>
   tmTimerStartOnce_find i dly func s = None"
proof (induction "MAX_TIMERS - i" arbitrary: i)
  case 0
  then show ?case by (simp add: tmTimerStartOnce_find_end)
next
  case (Suc d)
  then have lt: "i < MAX_TIMERS" by simp
  have "tmTimerStartOnce_find i dly func s = tmTimerStartOnce_find (Suc i) dly func s"
    using lt Suc.prems by (intro tmTimerStartOnce_find_skip) auto
  also have "\<dots> = None"
    using Suc lt by (intro Suc.hyps(1)) auto
  finally show ?case .
qed

lemma tmTimerStartOnce_new_skip:
  "i < MAX_TIMERS \<Longrightarrow> callback (timers s ! i) \<noteq> 0 \<Longrightarrow>
   tmTimerStartOnce_new i dly func s = tmTimerStartOnce_new (Suc i) dly func s"
  by (subst tmTimerStartOnce_new.simps) simp

lemma tmTimerStartOnce_new_hit:
  "i < MAX_TIMERS \<Longrightarrow> callback (timers s ! i) = 0 \<Longrightarrow>
   tmTimerStartOnce_new i dly func s =
     (0, s\<lparr>timers := (timers s)[i := (timers s ! i)
            \<lparr>active := 1, start_time := millis s, delay := dly, callback := func\<rparr>]\<rparr>)"
  by (subst tmTimerStartOnce_new.simps) simp

lemma tmTimerStartOnce_new_end:
  "\<not> i < MAX_TIMERS \<Longrightarrow> tmTimerStartOnce_new i dly func s = (- 1, s)"
  by (subst tmTimerStartOnce_new.simps) simp

lemma tmTimerStartOnce_new_found:
  "i \<le> k \<Longrightarrow> k < MAX_TIMERS \<Longrightarrow> callback (timers s ! k) = 0 \<Longrightarrow>
   (\<And>j. i \<le> j \<Longrightarrow> j < k \<Longrightarrow> callback (timers s ! j) \<noteq> 0) \<Longrightarrow>
   tmTimerStartOnce_new i dly func s =
     (0, s\<lparr>timers := (timers s)[k := (timers s ! k)
            \<lparr>active := 1, start_time := millis s, delay := dly, callback := func\<rparr>]\<rparr>)"
proof (induction "k - i" arbitrary: i)
  case 0
  then have "i = k" by simp
  with 0 show ?case by (simp add: tmTimerStartOnce_new_hit)
next
  case (Suc d)
  then have ik: "i < k" by simp
  have "tmTimerStartOnce_new i dly func s = tmTimerStartOnce_new (Suc i) dly func s"
    using ik Suc.prems by (intro tmTimerStartOnce_new_skip) auto
  also have "\<dots> =
     (0, s\<lparr>timers := (timers s)[k := (timers s ! k)
            \<lparr>active := 1, start_time := millis s, delay := dly, callback := func\<rparr>]\<rparr>)"
    using Suc ik by (intro Suc.hyps(1)) auto
  finally show ?case .
qed

lemma tmTimerStartOnce_new_full:
  "(\<And>j. i \<le> j \<Longrightarrow> j < MAX_TIMERS \<Longrightarrow> callback (timers s ! j) \<noteq> 0) \<Longrightarrow>
   tmTimerStartOnce_new i dly func s = (- 1, s)"
proof (induction "MAX_TIMERS - i" arbitrary: i)
  case 0
  then show ?case by (simp add: tmTimerStartOnce_new_end)
next
  case (Suc d)
  then have lt: "i < MAX_TIMERS" by simp
  have "tmTimerStartOnce_new i dly func s = tmTimerStartOnce_new (Suc i) dly func s"
    using lt Suc.prems by (intro tmTimerStartOnce_new_skip) auto
  also have "\<dots> = (- 1, s)"
    using Suc lt by (intro Suc.hyps(1)) auto
  finally show ?case .
qed

lemma tmTimerStartOnce_fresh:
  assumes "\<forall>j<MAX_TIMERS. callback (timers s ! j) \<noteq> func"
    and "k < MAX_TIMERS" and "callback (timers s ! k) = 0"
    and "\<forall>j<k. callback (timers s ! j) \<noteq> 0"
  shows "tmTimerStartOnce dly func s =
     (0, s\<lparr>timers := (timers s)[k := (timers s ! k)
            \<lparr>active := 1, start_time := millis s, delay := dly, callback := func\<rparr>]\<rparr>)"
proof -
  have "tmTimerStartOnce_find 0 dly func s = None"
    using assms(1) by (intro tmTimerStartOnce_find_none) auto
  moreover have "tmTimerStartOnce_new 0 dly func s =
     (0, s\<lparr>timers := (timers s)[k := (timers s ! k)
            \<lparr>active := 1, start_time := millis s, delay := dly, callback := func\<rparr>]\<rparr>)"
    using assms(2-4) by (intro tmTimerStartOnce_new_found) auto
  ultimately show ?thesis by (simp add: tmTimerStartOnce_def)
qed

lemma tmTimerStartOnce_again:
  assumes "wf_state s" and "k < MAX_TIMERS" and "callback (timers s ! k) = func"
    and "\<forall>j<k. callback (timers s ! j) \<noteq> func"
  shows "tmTimerStartOnce dly func s =
     (0, s\<lparr>timers := (timers s)[k :=
        (if active (timers s ! k) = 0
         then (timers s ! k)\<lparr>delay := dly, active := 1, start_time := millis s\<rparr>
         else (timers s ! k)\<lparr>delay := dly\<rparr>)]\<rparr>)"
proof -
  have "tmTimerStartOnce_find 0 dly func s =
     Some (s\<lparr>timers := (timers s)[k :=
        (if active (timers s ! k) = 0
         then (timers s ! k)\<lparr>delay := dly, active := 1, start_time := millis s\<rparr>
         else (timers s ! k)\<lparr>delay := dly\<rparr>)]\<rparr>)"
    using assms by (intro tmTimerStartOnce_find_found) (auto simp: wf_state_def)
  then show ?thesis by (simp add: tmTimerStartOnce_def)
qed

lemma tm_init_no_timers: "\<forall>j<MAX_TIMERS. callback (timers tm_init ! j) = 0"
  by (simp add: tm_init_def)

subsection \<open>Schedules and the countdown of a task\<close>

lemma run_Nil: "run [] s = s"
  by (simp add: run_def)

lemma run_snoc: "run (cs @ [c]) s = exec c (run cs s)"
  by (simp add: run_def)

lemma wf_run: "wf_state s \<Longrightarrow> wf_state (run cs s)"
proof (induction cs rule: rev_induct)
  case Nil
  then show ?case by (simp add: run_Nil)
next
  case (snoc c cs)
  then show ?case by (cases c) (simp_all add: run_snoc wf_tmTick wf_tmUpdate)
qed

lemma tasks_tmUpdate: "wf_state s \<Longrightarrow> tasks (tmUpdate s) = map update_slot (tasks s)"
  by (simp add: tmUpdate_eq)

lemma trace_tmUpdate:
  "wf_state s \<Longrightarrow> trace (tmUpdate s) = trace s @ concat (map ran (tasks s)) @
     (if \<not> list_ex runnable (tasks s) \<and> taskExecuted s = 0 then [Idle] else [])"
  by (simp add: tmUpdate_eq)

lemma count_ran_slot:
  assumes "k < length ts" and "runnable (ts ! k)"
  shows "1 \<le> count_list (concat (map ran ts)) (Call (taskFunc (ts ! k)))"
proof -
  have "ts = take k ts @ ts ! k # drop (Suc k) ts"
    using assms(1) by (rule id_take_nth_drop)
  then have "count_list (concat (map ran ts)) (Call (taskFunc (ts ! k))) =
        count_list (concat (map ran (take k ts))) (Call (taskFunc (ts ! k))) +
        count_list (ran (ts ! k)) (Call (taskFunc (ts ! k))) +
        count_list (concat (map ran (drop (Suc k) ts))) (Call (taskFunc (ts ! k)))"
    by (metis append_Cons append_Nil concat.simps(2) concat_append count_list_append list.simps(9) map_append add.assoc)
  moreover have "count_list (ran (ts ! k)) (Call (taskFunc (ts ! k))) = 1"
    using assms(2) by (simp add: ran_def)
  ultimately show ?thesis by simp
qed

text \<open>The countdown of a periodic task depends on the number of ticks alone.\<close>

lemma task_countdown:
  assumes wf: "wf_state s" and k: "k < MAX_TASKS" and f: "taskFunc (tasks s ! k) \<noteq> 0"
    and N: "period_ms (tasks s ! k) = N" "delay_ms (tasks s ! k) = N" "N \<noteq> 0"
    and r0: "isReady (tasks s ! k) = 0"
  shows "taskFunc (tasks (run cs s) ! k) = taskFunc (tasks s ! k) \<and>
         period_ms (tasks (run cs s) ! k) = N \<and>
         unat (delay_ms (tasks (run cs s) ! k)) = unat N - count_list cs Tick mod unat N \<and>
         (count_list cs Tick < unat N \<longrightarrow> isReady (tasks (run cs s) ! k) = 0)"
proof (induction cs rule: rev_induct)
  case Nil
  show ?case using N r0 by (simp add: run_Nil)
next
  case (snoc c cs)
  let ?s = "run cs s"
  let ?n = "count_list cs Tick"
  have wfs: "wf_state ?s" using wf by (rule wf_run)
  then have len: "k < length (tasks ?s)" using k by (simp add: wf_state_def)
  have Npos: "0 < unat N" using N(3) by (simp add: unat_gt_0)
  from snoc.IH have tf: "taskFunc (tasks ?s ! k) = taskFunc (tasks s ! k)"
    and per: "period_ms (tasks ?s ! k) = N"
    and del: "unat (delay_ms (tasks ?s ! k)) = unat N - ?n mod unat N"
    and rdy: "?n < unat N \<longrightarrow> isReady (tasks ?s ! k) = 0" by simp_all
  show ?case
  proof (cases c)
    case Update
    have "tasks (run (cs @ [c]) s) ! k = update_slot (tasks ?s ! k)"
      using wfs len by (simp add: run_snoc Update tasks_tmUpdate)
    then show ?thesis
      using tf per del rdy by (simp add: Update update_slot_def)
  next
    case Tick
    have slot: "tasks (run (cs @ [c]) s) ! k = tick_slot (tasks ?s ! k)"
      using wfs len by (simp add: run_snoc Tick tasks_tmTick)
    have lt: "?n mod unat N < unat N" using Npos by simp
    then have dpos: "0 < unat (delay_ms (tasks ?s ! k))" using del by simp
    then have d0: "0 < delay_ms (tasks ?s ! k)" by (simp add: word_less_nat_alt)
    have dm1: "unat (delay_ms (tasks ?s ! k) - 1) = unat (delay_ms (tasks ?s ! k)) - 1"
      using dpos by (simp add: unat_minus_one unat_gt_0 [symmetric])
    show ?thesis
    proof (cases "Suc ?n mod unat N = 0")
      case True
      then have "?n mod unat N = unat N - 1"
        using Npos lt by (metis Suc_lessI diff_Suc_1 mod_Suc Zero_not_Suc Suc_pred)
      then have "unat (delay_ms (tasks ?s ! k) - 1) = 0" using dm1 del Npos by simp
      then have z: "delay_ms (tasks ?s ! k) - 1 = 0" by (simp add: unat_eq_zero)
      have nlt: "\<not> Suc ?n < unat N" using True Npos by (metis mod_less nat.distinct(1))
      show ?thesis
        using slot tf per f d0 z True nlt by (simp add: Tick tick_slot_def)
    next
      case False
      then have suc: "Suc ?n mod unat N = Suc (?n mod unat N)"
        by (simp add: mod_Suc split: if_splits)
      then have "Suc (?n mod unat N) < unat N"
        using Npos by (metis mod_less_divisor)
      then have "unat (delay_ms (tasks ?s ! k) - 1) \<noteq> 0" using dm1 del by simp
      then have nz: "delay_ms (tasks ?s ! k) - 1 \<noteq> 0" by (simp add: unat_eq_zero)
      have "?n < unat N" if "Suc ?n < unat N" using that by simp
      then show ?thesis
        using slot tf per f d0 nz suc dm1 del rdy by (auto simp add: Tick tick_slot_def)
    qed
  qed
qed

lemma tick_slot_phase:
  assumes f: "taskFunc t \<noteq> 0" and N: "N \<noteq> 0"
    and del: "unat (delay_ms t) = unat N - n mod unat N"
  shows "isReady (tick_slot t) = (if Suc n mod unat N = 0 then 1 else isReady t)"
proof -
  have Npos: "0 < unat N" using N by (simp add: unat_gt_0)
  then have lt: "n mod unat N < unat N" by simp
  then have dpos: "0 < unat (delay_ms t)" using del by simp
  then have d0: "0 < delay_ms t" by (simp add: word_less_nat_alt)
  have dm1: "unat (delay_ms t - 1) = unat (delay_ms t) - 1"
    using dpos by (simp add: unat_minus_one unat_gt_0 [symmetric])
  show ?thesis
  proof (cases "Suc n mod unat N = 0")
    case True
    then have "n mod unat N = unat N - 1"
      using Npos lt by (metis Suc_lessI diff_Suc_1 mod_Suc Zero_not_Suc Suc_pred)
    then have "unat (delay_ms t - 1) = 0" using dm1 del Npos by simp
    then have "delay_ms t - 1 = 0" by (simp add: unat_eq_zero)
    then show ?thesis using f d0 True by (simp add: tick_slot_def)
  next
    case False
    then have "Suc n mod unat N = Suc (n mod unat N)"
      by (simp add: mod_Suc split: if_splits)
    then have "Suc (n mod unat N) < unat N"
      using Npos by (metis mod_less_divisor)
    then have "unat (delay_ms t - 1) \<noteq> 0" using dm1 del by simp
    then have "delay_ms t - 1 \<noteq> 0" by (simp add: unat_eq_zero)
    then show ?thesis using f d0 False by (simp add: tick_slot_def)
  qed
qed

subsection \<open>Reachable states keep the arrays' sizes and hold a callback in one timer slot\<close>

lemma tmAddTask_loop_frame:
  "length (tasks (snd (tmAddTask_loop i func period s))) = length (tasks s) \<and>
   timers (snd (tmAddTask_loop i func period s)) = timers s"
proof (induction i func period s rule: tmAddTask_loop.induct)
  case (1 i func period s)
  then show ?case by (subst (1 2) tmAddTask_loop.simps) simp
qed

lemma tmUpdateTask_loop_frame:
  "length (tasks (snd (tmUpdateTask_loop i func period s))) = length (tasks s) \<and>
   timers (snd (tmUpdateTask_loop i func period s)) = timers s"
proof (induction i func period s rule: tmUpdateTask_loop.induct)
  case (1 i func period s)
  then show ?case by (subst (1 2) tmUpdateTask_loop.simps) simp
qed

lemma tmDeleteTask_loop_frame:
  "length (tasks (snd (tmDeleteTask_loop i func s))) = length (tasks s) \<and>
   timers (snd (tmDeleteTask_loop i func s)) = timers s"
proof (induction i func s rule: tmDeleteTask_loop.induct)
  case (1 i func s)
  then show ?case by (subst (1 2) tmDeleteTask_loop.simps) simp
qed

lemma timers_unique_update:
  assumes "timers_unique s" and "length (timers s) = MAX_TIMERS" and "k < MAX_TIMERS"
    and "callback t = 0 \<or> (\<forall>j<MAX_TIMERS. j \<noteq> k \<longrightarrow> callback (timers s ! j) \<noteq> callback t)"
  shows "timers_unique (s\<lparr>timers := (timers s)[k := t]\<rparr>)"
  unfolding timers_unique_def
proof (intro allI impI)
  fix i j
  assume i: "i < MAX_TIMERS" and j: "j < MAX_TIMERS"
    and eq: "callback (timers (s\<lparr>timers := (timers s)[k := t]\<rparr>) ! i) \<noteq> 0 \<and>
      callback (timers (s\<lparr>timers := (timers s)[k := t]\<rparr>) ! i) =
      callback (timers (s\<lparr>timers := (timers s)[k := t]\<rparr>) ! j)"
  show "i = j"
  proof (cases "i = k")
    case ik: True
    show ?thesis
    proof (cases "j = k")
      case True
      with ik show ?thesis by simp
    next
      case False
      with ik eq assms(2,3,4) i j show ?thesis by (auto simp: nth_list_update)
    qed
  next
    case ik: False
    show ?thesis
    proof (cases "j = k")
      case True
      with ik eq assms(2,3,4) i j show ?thesis by (auto simp: nth_list_update)
    next
      case False
      with ik eq assms(1) i j show ?thesis by (auto simp: timers_unique_def nth_list_update)
    qed
  qed
qed

lemma timers_unique_same_callback:
  assumes "timers_unique s" and "length (timers s) = MAX_TIMERS" and "k < MAX_TIMERS"
    and "callback t = callback (timers s ! k)"
  shows "timers_unique (s\<lparr>timers := (timers s)[k := t]\<rparr>)"
proof (rule timers_unique_update [OF assms(1-3)])
  show "callback t = 0 \<or> (\<forall>j<MAX_TIMERS. j \<noteq> k \<longrightarrow> callback (timers s ! j) \<noteq> callback t)"
    using assms(1,3,4) by (auto simp: timers_unique_def)
qed

lemma timers_unique_cong:
  "map callback (timers s') = map callback (timers s) \<Longrightarrow> length (timers s) = MAX_TIMERS \<Longrightarrow>
   timers_unique s \<Longrightarrow> timers_unique s'"
proof -
  assume m: "map callback (timers s') = map callback (timers s)"
    and len: "length (timers s) = MAX_TIMERS" and u: "timers_unique s"
  have len': "length (timers s') = MAX_TIMERS"
    using m len by (metis length_map)
  have "callback (timers s' ! i) = callback (timers s ! i)" if "i < MAX_TIMERS" for i
    using that m len len' by (metis nth_map)
  then show ?thesis using u by (simp add: timers_unique_def)
qed

lemma tmTimerDelete_loop_inv:
  "length (timers s) = MAX_TIMERS \<Longrightarrow> timers_unique s \<Longrightarrow>
   length (tasks (snd (tmTimerDelete_loop i func s))) = length (tasks s) \<and>
   length (timers (snd (tmTimerDelete_loop i func s))) = MAX_TIMERS \<and>
   timers_unique (snd (tmTimerDelete_loop i func s))"
proof (induction i func s rule: tmTimerDelete_loop.induct)
  case (1 i func s)
  show ?case
  proof (cases "i < MAX_TIMERS \<and> callback (timers s ! i) = func")
    case True
    then have "snd (tmTimerDelete_loop i func s) =
        s\<lparr>timers := (timers s)[i := (timers s ! i)\<lparr>callback := 0\<rparr>]\<rparr>"
      by (subst tmTimerDelete_loop.simps) simp
    moreover have "timers_unique (s\<lparr>timers := (timers s)[i := (timers s ! i)\<lparr>callback := 0\<rparr>]\<rparr>)"
      using 1(2,3) True by (intro timers_unique_update) simp_all
    ultimately show ?thesis using 1(2) by simp
  next
    case False
    then show ?thesis
      using 1 by (subst (1 2 3) tmTimerDelete_loop.simps) auto
  qed
qed

lemma tmTimerStartOnce_full:
  assumes "\<forall>j<MAX_TIMERS. callback (timers s ! j) \<noteq> func"
    and "\<forall>j<MAX_TIMERS. callback (timers s ! j) \<noteq> 0"
  shows "tmTimerStartOnce dly func s = (- 1, s)"
proof -
  have "tmTimerStartOnce_find 0 dly func s = None"
    using assms(1) by (intro tmTimerStartOnce_find_none) auto
  moreover have "tmTimerStartOnce_new 0 dly func s = (- 1, s)"
    using assms(2) by (intro tmTimerStartOnce_new_full) auto
  ultimately show ?thesis by (simp add: tmTimerStartOnce_def)
qed

lemma tmTimerStartOnce_inv:
  assumes wf: "wf_state s" and u: "timers_unique s"
  shows "wf_state (snd (tmTimerStartOnce dly func s)) \<and>
         timers_unique (snd (tmTimerStartOnce dly func s))"
proof -
  have len: "length (timers s) = MAX_TIMERS" using wf by (simp add: wf_state_def)
  consider k where "k < MAX_TIMERS" "callback (timers s ! k) = func"
      "\<forall>j<k. callback (timers s ! j) \<noteq> func"
    | "\<forall>j<MAX_TIMERS. callback (timers s ! j) \<noteq> func"
    using first_index_cases [of MAX_TIMERS "\<lambda>i. callback (timers s ! i) = func"] by blast
  then show ?thesis
  proof cases
    case 1
    let ?t = "if active (timers s ! k) = 0
         then (timers s ! k)\<lparr>delay := dly, active := 1, start_time := millis s\<rparr>
         else (timers s ! k)\<lparr>delay := dly\<rparr>"
    have res: "tmTimerStartOnce dly func s = (0, s\<lparr>timers := (timers s)[k := ?t]\<rparr>)"
      using wf 1 by (rule tmTimerStartOnce_again)
    have "timers_unique (s\<lparr>timers := (timers s)[k := ?t]\<rparr>)"
      using u len 1(1) by (rule timers_unique_same_callback) simp
    then show ?thesis using wf by (simp add: res wf_state_def)
  next
    case 2
    consider k where "k < MAX_TIMERS" "callback (timers s ! k) = 0"
        "\<forall>j<k. callback (timers s ! j) \<noteq> 0"
      | "\<forall>j<MAX_TIMERS. callback (timers s ! j) \<noteq> 0"
      using first_index_cases [of MAX_TIMERS "\<lambda>i. callback (timers s ! i) = 0"] by blast
    then show ?thesis
    proof cases
      case (1 k)
      let ?t = "(timers s ! k)\<lparr>active := 1, start_time := millis s, delay := dly, callback := func\<rparr>"
      have res: "tmTimerStartOnce dly func s = (0, s\<lparr>timers := (timers s)[k := ?t]\<rparr>)"
        using 2 1 by (rule tmTimerStartOnce_fresh)
      have "timers_unique (s\<lparr>timers := (timers s)[k := ?t]\<rparr>)"
        using u len 1(1) 2 by (intro timers_unique_update) simp_all
      then show ?thesis using wf by (simp add: res wf_state_def)
    next
      case 2
      with \<open>\<forall>j<MAX_TIMERS. callback (timers s ! j) \<noteq> func\<close>
      have "tmTimerStartOnce dly func s = (- 1, s)" by (rule tmTimerStartOnce_full)
      then show ?thesis using wf u by simp
    qed
  qed
qed

lemma callback_map_process: "map callback (map (process_slot now) ts) = map callback ts"
  by (simp add: callback_process_slot)

lemma reachable_inv: "reachable s \<Longrightarrow> wf_state s \<and> timers_unique s"
proof (induction rule: reachable.induct)
  case reach_init
  have "timers_unique tm_init" by (simp add: timers_unique_def tm_init_def)
  then show ?case by (simp add: wf_tm_init)
next
  case (reach_AddTask s func period)
  then show ?case
    using tmAddTask_loop_frame [of 0 func period s]
    by (simp add: tmAddTask_def wf_state_def timers_unique_def)
next
  case (reach_UpdateTask s func period)
  then show ?case
    using tmUpdateTask_loop_frame [of 0 func period s]
    by (simp add: tmUpdateTask_def wf_state_def timers_unique_def)
next
  case (reach_DeleteTask s func)
  then show ?case
    using tmDeleteTask_loop_frame [of 0 func s]
    by (simp add: tmDeleteTask_def wf_state_def timers_unique_def)
next
  case (reach_Tick s)
  then have wf: "wf_state s" and u: "timers_unique s" by simp_all
  have "map callback (timers (tmTick s)) = map callback (timers s)"
    using wf by (simp add: timers_tmTick callback_process_slot)
  then have "timers_unique (tmTick s)"
    using wf u by (intro timers_unique_cong [of "tmTick s" s]) (simp_all add: wf_state_def)
  with wf show ?case by (simp add: wf_tmTick)
next
  case (reach_Update s)
  then have wf: "wf_state s" and u: "timers_unique s" by simp_all
  have "timers (tmUpdate s) = timers s" using wf by (simp add: tmUpdate_eq)
  with wf u show ?case by (simp add: wf_tmUpdate timers_unique_def)
next
  case (reach_TimerStartOnce s dly func)
  then show ?case by (simp add: tmTimerStartOnce_inv)
next
  case (reach_TimerDelete s func)
  then show ?case
    using tmTimerDelete_loop_inv [of s 0 func]
    by (simp add: tmTimerDelete_def wf_state_def)
next
  case (reach_TimerProcess s)
  then have wf: "wf_state s" and u: "timers_unique s" by simp_all
  have eq: "tmTimerProcess s =
     s\<lparr>timers := map (process_slot (millis s)) (timers s),
       trace := trace s @ concat (map (fired (millis s)) (timers s))\<rparr>"
    using wf by (rule tmTimerProcess_eq)
  have "map callback (timers (tmTimerProcess s)) = map callback (timers s)"
    by (simp add: eq callback_process_slot)
  then have "timers_unique (tmTimerProcess s)"
    using wf u by (intro timers_unique_cong [of "tmTimerProcess s" s]) (simp_all add: wf_state_def)
  moreover have "wf_state (tmTimerProcess s)" using wf by (simp add: eq wf_state_def)
  ultimately show ?case by simp
qed

section \<open>The claims\<close>

subsection \<open>C1: the idle hook\<close>

text \<open>
  Claim C1: every call to Update with no ready task invokes the idle hook exactly once,
  whatever happened in earlier calls. The code does not do this. The flag
  \<^verbatim>\<open>taskExecuted\<close> is \<^verbatim>\<open>static\<close> and nothing resets it: once a task has run, the
  flag stays set and the idle hook is never called again. Below, one task with period 1 is
  added to the initial table and one tick makes it ready. The first Update runs it. At
  the start of the second Update no task is ready, and that call adds nothing to the
  trace: the idle hook is not invoked.
\<close>

theorem tmUpdate_idle_skipped_after_task_ran:
  "map isReady (tasks (tmUpdate (tmTick (snd (tmAddTask 7 1 tm_init))))) = replicate MAX_TASKS 0 \<and>
   trace (tmUpdate (tmTick (snd (tmAddTask 7 1 tm_init)))) = [Call 7] \<and>
   trace (tmUpdate (tmUpdate (tmTick (snd (tmAddTask 7 1 tm_init))))) = [Call 7]"
  by code_simp

subsection \<open>C7: the capacity of the task table\<close>

text \<open>
  Claim C7: starting from an empty task table, \<^verbatim>\<open>tmAddTask\<close> called with non-null
  callbacks succeeds \<open>MAX_TASKS\<close> times in a row and returns the indices
  \<open>0, \<dots>, MAX_TASKS - 1\<close> in this order; one more call returns \<open>-1\<close> and leaves the
  state as it is. The callbacks need not be distinct for this, and the last call fails
  for every callback.
\<close>

theorem tmAddTask_capacity:
  assumes "wf_state s"
    and "\<forall>j<MAX_TASKS. taskFunc (tasks s ! j) = 0"
    and "length cs = MAX_TASKS"
    and "0 \<notin> fst ` set cs"
  shows "map sint (fst (tmAddTask_seq cs s)) = map int [0..<MAX_TASKS] \<and>
         sint (fst (tmAddTask func period (snd (tmAddTask_seq cs s)))) = - 1 \<and>
         snd (tmAddTask func period (snd (tmAddTask_seq cs s))) = snd (tmAddTask_seq cs s)"
proof -
  have inv: "fst (tmAddTask_seq cs s) = map word_of_nat [0..<0 + length cs] \<and>
   length (tasks (snd (tmAddTask_seq cs s))) = MAX_TASKS \<and>
   (\<forall>j<0 + length cs. taskFunc (tasks (snd (tmAddTask_seq cs s)) ! j) \<noteq> 0) \<and>
   (\<forall>j. 0 + length cs \<le> j \<and> j < MAX_TASKS \<longrightarrow> taskFunc (tasks (snd (tmAddTask_seq cs s)) ! j) = 0)"
    using assms by (intro tmAddTask_seq_prefix) (auto simp: wf_state_def)
  have "map sint (fst (tmAddTask_seq cs s)) = map (\<lambda>k. sint (word_of_nat k :: 8 word)) [0..<MAX_TASKS]"
    using inv assms(3) by simp
  also have "\<dots> = map int [0..<MAX_TASKS]"
    by (rule map_cong) (simp_all add: sint_slot_index)
  finally have results: "map sint (fst (tmAddTask_seq cs s)) = map int [0..<MAX_TASKS]" .
  have "tmAddTask func period (snd (tmAddTask_seq cs s)) = (- 1, snd (tmAddTask_seq cs s))"
    using inv assms(3) by (intro tmAddTask_table_full) simp
  with results show ?thesis by simp
qed

theorem tmAddTask_capacity_witness:
  "map sint (fst (tmAddTask_seq
       [(1, 10), (2, 20), (3, 5), (4, 1), (5, 0), (6, 7), (7, 7), (8, 100), (9, 1000), (10, 3)]
       tm_init)) = map int [0..<MAX_TASKS] \<and>
   sint (fst (tmAddTask 11 50 (snd (tmAddTask_seq
       [(1, 10), (2, 20), (3, 5), (4, 1), (5, 0), (6, 7), (7, 7), (8, 100), (9, 1000), (10, 3)]
       tm_init)))) = - 1 \<and>
   snd (tmAddTask 11 50 (snd (tmAddTask_seq
       [(1, 10), (2, 20), (3, 5), (4, 1), (5, 0), (6, 7), (7, 7), (8, 100), (9, 1000), (10, 3)]
       tm_init))) =
   snd (tmAddTask_seq
       [(1, 10), (2, 20), (3, 5), (4, 1), (5, 0), (6, 7), (7, 7), (8, 100), (9, 1000), (10, 3)]
       tm_init)"
proof (rule tmAddTask_capacity [OF wf_tm_init tm_init_empty])
  show "length [(1::fptr, 10::32 word), (2, 20), (3, 5), (4, 1), (5, 0), (6, 7), (7, 7),
                (8, 100), (9, 1000), (10, 3)] = MAX_TASKS"
    by (simp add: MAX_TASKS_def)
  show "0 \<notin> fst ` set [(1::fptr, 10::32 word), (2, 20), (3, 5), (4, 1), (5, 0), (6, 7), (7, 7),
                (8, 100), (9, 1000), (10, 3)]"
    by simp
qed

subsection \<open>C10: adding a null callback\<close>

text \<open>
  Claim C10: when slot \<open>k\<close> is the first free slot of the task table, \<^verbatim>\<open>tmAddTask\<close>
  with a null callback returns \<open>k\<close>, a result that reads as success, and yet slot \<open>k\<close>
  is still free afterwards: the callback field of every slot is what it was, so no
  capacity is used and nothing is registered.
\<close>

theorem tmAddTask_null_callback:
  assumes "wf_state s"
    and "k < MAX_TASKS"
    and "taskFunc (tasks s ! k) = 0"
    and "\<forall>j<k. taskFunc (tasks s ! j) \<noteq> 0"
  shows "sint (fst (tmAddTask 0 period s)) = int k \<and>
         taskFunc (tasks (snd (tmAddTask 0 period s)) ! k) = 0 \<and>
         map taskFunc (tasks (snd (tmAddTask 0 period s))) = map taskFunc (tasks s)"
proof -
  have add: "tmAddTask 0 period s =
     (word_of_nat k,
      s\<lparr>tasks := (tasks s)[k := (tasks s ! k)
           \<lparr>taskFunc := 0, period_ms := period, delay_ms := period, isReady := 0\<rparr>]\<rparr>)"
    using assms by (intro tmAddTask_first_free) auto
  have "map taskFunc ((tasks s)[k := (tasks s ! k)
           \<lparr>taskFunc := 0, period_ms := period, delay_ms := period, isReady := 0\<rparr>]) =
        (map taskFunc (tasks s))[k := 0]"
    by (simp add: map_update)
  also have "\<dots> = map taskFunc (tasks s)"
    using assms by (simp add: list_update_same_conv wf_state_def)
  finally show ?thesis
    using assms by (simp add: add sint_slot_index wf_state_def)
qed

theorem tmAddTask_null_callback_witness:
  "sint (fst (tmAddTask 0 9 (snd (tmAddTask 4 2 tm_init)))) = int 1 \<and>
   taskFunc (tasks (snd (tmAddTask 0 9 (snd (tmAddTask 4 2 tm_init)))) ! 1) = 0 \<and>
   map taskFunc (tasks (snd (tmAddTask 0 9 (snd (tmAddTask 4 2 tm_init))))) =
     map taskFunc (tasks (snd (tmAddTask 4 2 tm_init)))"
proof (rule tmAddTask_null_callback)
  show "wf_state (snd (tmAddTask 4 2 tm_init))" by code_simp
  show "1 < MAX_TASKS" by (simp add: MAX_TASKS_def)
  show "taskFunc (tasks (snd (tmAddTask 4 2 tm_init)) ! 1) = 0" by code_simp
  show "\<forall>j<1. taskFunc (tasks (snd (tmAddTask 4 2 tm_init)) ! j) \<noteq> 0" by code_simp
qed

subsection \<open>C5: updating a task\<close>

text \<open>
  Claim C5 says that \<^verbatim>\<open>tmUpdateTask\<close> succeeds exactly when an occupied slot holds the
  callback, and otherwise returns \<open>-1\<close> and changes nothing. The loop compares the
  callback field of every slot with the argument and does not ask whether the slot is
  occupied, so a null argument matches the first free slot. In the initial table every
  slot is free, and \<^verbatim>\<open>tmUpdateTask(0, 5)\<close> returns \<open>0\<close> and writes the period \<open>5\<close> into
  slot \<open>0\<close>.
\<close>

theorem tmUpdateTask_null_counterexample:
  "map taskFunc (tasks tm_init) = replicate MAX_TASKS 0 \<and>
   fst (tmUpdateTask 0 5 tm_init) = 0 \<and>
   period_ms (tasks tm_init ! 0) = 0 \<and>
   period_ms (tasks (snd (tmUpdateTask 0 5 tm_init)) ! 0) = 5"
  by code_simp

text \<open>
  Claim C5, amended: \<^verbatim>\<open>tmUpdateTask\<close> returns \<open>0\<close> exactly when the callback field of
  some slot equals the argument (for a non-null argument this is an occupied slot; a null
  argument matches a free slot). It then works on the first such slot: it overwrites
  \<open>period_ms\<close>, sets \<open>delay_ms\<close> to the new period, clears \<open>isReady\<close> and changes
  nothing else. When no slot matches, it returns \<open>-1\<close> and the state is unchanged.
\<close>

theorem tmUpdateTask_first_match:
  assumes "wf_state s"
  shows "(fst (tmUpdateTask func period s) = 0) = (\<exists>i<MAX_TASKS. taskFunc (tasks s ! i) = func) \<and>
     (\<forall>k<MAX_TASKS. taskFunc (tasks s ! k) = func \<and> (\<forall>j<k. taskFunc (tasks s ! j) \<noteq> func) \<longrightarrow>
        tmUpdateTask func period s =
          (0, s\<lparr>tasks := (tasks s)[k := (tasks s ! k)
                \<lparr>period_ms := period, delay_ms := period, isReady := 0\<rparr>]\<rparr>)) \<and>
     ((\<forall>i<MAX_TASKS. taskFunc (tasks s ! i) \<noteq> func) \<longrightarrow>
        tmUpdateTask func period s = (- 1, s))"
proof -
  have found: "tmUpdateTask func period s =
          (0, s\<lparr>tasks := (tasks s)[k := (tasks s ! k)
                \<lparr>period_ms := period, delay_ms := period, isReady := 0\<rparr>]\<rparr>)"
    if "k < MAX_TASKS" "taskFunc (tasks s ! k) = func" "\<forall>j<k. taskFunc (tasks s ! j) \<noteq> func" for k
    unfolding tmUpdateTask_def using that by (intro tmUpdateTask_loop_found) auto
  have none: "tmUpdateTask func period s = (- 1, s)"
    if "\<forall>i<MAX_TASKS. taskFunc (tasks s ! i) \<noteq> func"
    unfolding tmUpdateTask_def using that by (intro tmUpdateTask_loop_none) auto
  have iff: "(fst (tmUpdateTask func period s) = 0) = (\<exists>i<MAX_TASKS. taskFunc (tasks s ! i) = func)"
  proof -
    consider k where "k < MAX_TASKS" "taskFunc (tasks s ! k) = func"
        "\<forall>j<k. taskFunc (tasks s ! j) \<noteq> func"
      | "\<forall>j<MAX_TASKS. taskFunc (tasks s ! j) \<noteq> func"
      using first_index_cases [of MAX_TASKS "\<lambda>i. taskFunc (tasks s ! i) = func"] by blast
    then show ?thesis
    proof cases
      case 1
      then show ?thesis using found [of k] by auto
    next
      case 2
      then show ?thesis using none by auto
    qed
  qed
  show ?thesis using found none iff by blast
qed

theorem tmUpdateTask_first_match_witness:
  "(fst (tmUpdateTask 4 50 (snd (tmAddTask 4 2 (snd (tmAddTask 3 9 tm_init))))) = 0) \<and>
   tmUpdateTask 4 50 (snd (tmAddTask 4 2 (snd (tmAddTask 3 9 tm_init)))) =
     (0, (snd (tmAddTask 4 2 (snd (tmAddTask 3 9 tm_init))))
          \<lparr>tasks := (tasks (snd (tmAddTask 4 2 (snd (tmAddTask 3 9 tm_init)))))
             [1 := (tasks (snd (tmAddTask 4 2 (snd (tmAddTask 3 9 tm_init)))) ! 1)
                \<lparr>period_ms := 50, delay_ms := 50, isReady := 0\<rparr>]\<rparr>) \<and>
   tmUpdateTask 8 50 (snd (tmAddTask 4 2 (snd (tmAddTask 3 9 tm_init)))) =
     (- 1, snd (tmAddTask 4 2 (snd (tmAddTask 3 9 tm_init))))"
proof -
  let ?s = "snd (tmAddTask 4 2 (snd (tmAddTask 3 9 tm_init)))"
  have wf: "wf_state ?s" by code_simp
  have k: "(1 :: nat) < MAX_TASKS" by (simp add: MAX_TASKS_def)
  have hit: "taskFunc (tasks ?s ! 1) = 4 \<and> (\<forall>j<1. taskFunc (tasks ?s ! j) \<noteq> 4)" by code_simp
  have miss: "\<forall>i<MAX_TASKS. taskFunc (tasks ?s ! i) \<noteq> 8" by code_simp
  have ex: "\<exists>i<MAX_TASKS. taskFunc (tasks ?s ! i) = 4" using k hit by blast
  show ?thesis
    using tmUpdateTask_first_match [OF wf, of 4 50, THEN conjunct1] ex
      tmUpdateTask_first_match [OF wf, of 4 50, THEN conjunct2, THEN conjunct1, rule_format, OF k hit]
      tmUpdateTask_first_match [OF wf, of 8 50, THEN conjunct2, THEN conjunct2, THEN mp, OF miss]
    by simp
qed

subsection \<open>C6: the non-blocking delay across a wrap of the clock\<close>

text \<open>
  Claim C6: \<^verbatim>\<open>tmDelay_ms\<close> returns true and stores the clock in the timestamp exactly
  when the difference of clock and timestamp modulo \<open>2^32\<close> is at least the delay, and
  otherwise returns false and leaves the timestamp as it is. Wrapping of the clock does
  no harm: a timestamp taken from the clock and checked \<open>k < 2^32\<close> ticks later has
  elapsed exactly when \<open>k\<close> is at least the delay, wherever the clock started.
\<close>

theorem tmDelay_ms_wrap_safe:
  "tmDelay_ms ts d s =
     (if uint d \<le> (uint (millis s) - uint ts) mod 2 ^ 32 then (True, millis s) else (False, ts)) \<and>
   (k < 2 ^ 32 \<longrightarrow>
      tmDelay_ms (millis s) d ((tmTick ^^ k) s) =
        (if unat d \<le> k then (True, millis s + of_nat k) else (False, millis s)))"
proof
  have "uint (millis s - ts) = (uint (millis s) - uint ts) mod 2 ^ 32"
    by (simp add: uint_word_ariths)
  then show "tmDelay_ms ts d s =
     (if uint d \<le> (uint (millis s) - uint ts) mod 2 ^ 32 then (True, millis s) else (False, ts))"
    by (simp add: tmDelay_ms_def word_le_def)
next
  show "k < 2 ^ 32 \<longrightarrow>
      tmDelay_ms (millis s) d ((tmTick ^^ k) s) =
        (if unat d \<le> k then (True, millis s + of_nat k) else (False, millis s))"
  proof
    assume k: "k < 2 ^ 32"
    then have "unat (word_of_nat k :: 32 word) = k"
      by (simp add: unat_of_nat)
    then have "(d \<le> word_of_nat k) = (unat d \<le> k)"
      by (simp add: word_le_nat_alt)
    then show "tmDelay_ms (millis s) d ((tmTick ^^ k) s) =
        (if unat d \<le> k then (True, millis s + of_nat k) else (False, millis s))"
      by (simp add: tmDelay_ms_def millis_tmTick_pow)
  qed
qed

theorem tmDelay_ms_wrap_safe_witness:
  "tmDelay_ms 0xFFFFFFFE 5 ((tmTick ^^ 4) (tm_init\<lparr>millis := 0xFFFFFFFE\<rparr>)) = (False, 0xFFFFFFFE) \<and>
   tmDelay_ms 0xFFFFFFFE 5 ((tmTick ^^ 5) (tm_init\<lparr>millis := 0xFFFFFFFE\<rparr>)) = (True, 3)"
  using tmDelay_ms_wrap_safe [where s = "tm_init\<lparr>millis := 0xFFFFFFFE\<rparr>" and k = 4 and d = 5]
    tmDelay_ms_wrap_safe [where s = "tm_init\<lparr>millis := 0xFFFFFFFE\<rparr>" and k = 5 and d = 5]
  by simp

subsection \<open>C8: the clock is incremented last\<close>

text \<open>
  Claim C8: every call of \<^verbatim>\<open>tmTick\<close> adds exactly one to the clock, and it does so
  after the countdown of the tasks and after the processing of the timers. A timer
  therefore expires in a tick exactly when it is active and its delay has elapsed at the
  clock value the tick started with; exactly the expired timers with a callback are
  called, in table order.
\<close>

theorem tmTick_clock_last:
  assumes "wf_state s"
  shows "millis (tmTick s) = millis s + 1 \<and>
     tmTick s = (tmTimerProcess (fold tmTick_step [0..<MAX_TASKS] s))\<lparr>millis := millis s + 1\<rparr> \<and>
     timers (tmTick s) =
       map (\<lambda>t. if active t \<noteq> 0 \<and> delay t \<le> millis s - start_time t then t\<lparr>active := 0\<rparr> else t)
         (timers s) \<and>
     trace (tmTick s) = trace s @
       map (\<lambda>t. Call (callback t))
         (filter (\<lambda>t. active t \<noteq> 0 \<and> delay t \<le> millis s - start_time t \<and> callback t \<noteq> 0)
            (timers s))"
proof -
  have "tmTick s = (tmTimerProcess (fold tmTick_step [0..<MAX_TASKS] s))\<lparr>millis := millis s + 1\<rparr>"
    by (simp add: tmTick_def tmTimerProcess_def Let_def millis_fold_tmTick_step
        millis_fold_tmTimerProcess_step)
  moreover have "timers (tmTick s) =
       map (\<lambda>t. if active t \<noteq> 0 \<and> delay t \<le> millis s - start_time t then t\<lparr>active := 0\<rparr> else t)
         (timers s)"
    using assms by (simp add: tmTick_eq process_slot_def expired_def)
  moreover have "trace (tmTick s) = trace s @
       map (\<lambda>t. Call (callback t))
         (filter (\<lambda>t. active t \<noteq> 0 \<and> delay t \<le> millis s - start_time t \<and> callback t \<noteq> 0)
            (timers s))"
    using assms by (simp add: tmTick_eq fired_concat)
  ultimately show ?thesis
    by (simp add: millis_tmTick)
qed

theorem tmTick_clock_last_witness:
  "millis (tmTick (snd (tmTimerStartOnce 0 7 tm_init))) =
     millis (snd (tmTimerStartOnce 0 7 tm_init)) + 1 \<and>
   tmTick (snd (tmTimerStartOnce 0 7 tm_init)) =
     (tmTimerProcess (fold tmTick_step [0..<MAX_TASKS] (snd (tmTimerStartOnce 0 7 tm_init))))
       \<lparr>millis := millis (snd (tmTimerStartOnce 0 7 tm_init)) + 1\<rparr> \<and>
   timers (tmTick (snd (tmTimerStartOnce 0 7 tm_init))) =
     map (\<lambda>t. if active t \<noteq> 0 \<and>
                  delay t \<le> millis (snd (tmTimerStartOnce 0 7 tm_init)) - start_time t
               then t\<lparr>active := 0\<rparr> else t)
       (timers (snd (tmTimerStartOnce 0 7 tm_init))) \<and>
   trace (tmTick (snd (tmTimerStartOnce 0 7 tm_init))) =
     trace (snd (tmTimerStartOnce 0 7 tm_init)) @
     map (\<lambda>t. Call (callback t))
       (filter (\<lambda>t. active t \<noteq> 0 \<and>
                     delay t \<le> millis (snd (tmTimerStartOnce 0 7 tm_init)) - start_time t \<and>
                     callback t \<noteq> 0)
          (timers (snd (tmTimerStartOnce 0 7 tm_init))))"
proof (rule tmTick_clock_last)
  show "wf_state (snd (tmTimerStartOnce 0 7 tm_init))" by code_simp
qed

subsection \<open>C9: a period of zero\<close>

text \<open>
  Claim C9: a task that \<^verbatim>\<open>tmAddTask\<close> registered with period \<open>0\<close> is never made ready
  by ticks. Its countdown starts at \<open>0\<close>, the decrement is guarded by
  \<^verbatim>\<open>delay_ms > 0\<close>, and so its slot is the same after any number of ticks.
\<close>

theorem tmTick_zero_period_never_ready:
  assumes "wf_state s" and "func \<noteq> 0"
    and "tmAddTask func 0 s = (r, s1)" and "r \<noteq> - 1"
  shows "taskFunc (tasks ((tmTick ^^ n) s1) ! unat r) = func \<and>
         period_ms (tasks ((tmTick ^^ n) s1) ! unat r) = 0 \<and>
         delay_ms (tasks ((tmTick ^^ n) s1) ! unat r) = 0 \<and>
         isReady (tasks ((tmTick ^^ n) s1) ! unat r) = 0"
proof -
  from assms(3,4) have k: "unat r < MAX_TASKS"
    and s1: "s1 = s\<lparr>tasks := (tasks s)[unat r := (tasks s ! unat r)
           \<lparr>taskFunc := func, period_ms := 0, delay_ms := 0, isReady := 0\<rparr>]\<rparr>"
    using tmAddTask_success by blast+
  have wf1: "wf_state s1" using assms(1) s1 by (simp add: wf_state_def)
  have slot: "tasks s1 ! unat r =
     (tasks s ! unat r)\<lparr>taskFunc := func, period_ms := 0, delay_ms := 0, isReady := 0\<rparr>"
    using assms(1) k s1 by (simp add: wf_state_def)
  then have "delay_ms (tasks s1 ! unat r) = 0" by simp
  with wf1 k have "tasks ((tmTick ^^ n) s1) ! unat r = tasks s1 ! unat r"
    by (rule tmTick_pow_idle_slot)
  with slot show ?thesis by simp
qed

theorem tmTick_zero_period_never_ready_witness:
  "taskFunc (tasks ((tmTick ^^ 1000) (snd (tmAddTask 7 0 tm_init))) ! unat (0 :: 8 word)) = 7 \<and>
   period_ms (tasks ((tmTick ^^ 1000) (snd (tmAddTask 7 0 tm_init))) ! unat (0 :: 8 word)) = 0 \<and>
   delay_ms (tasks ((tmTick ^^ 1000) (snd (tmAddTask 7 0 tm_init))) ! unat (0 :: 8 word)) = 0 \<and>
   isReady (tasks ((tmTick ^^ 1000) (snd (tmAddTask 7 0 tm_init))) ! unat (0 :: 8 word)) = 0"
proof (rule tmTick_zero_period_never_ready [OF wf_tm_init])
  show "(7 :: fptr) \<noteq> 0" by simp
  show "tmAddTask 7 0 tm_init = (0, snd (tmAddTask 7 0 tm_init))" by code_simp
  show "(0 :: 8 word) \<noteq> - 1" by simp
qed

subsection \<open>C2: a one-shot timer fires once\<close>

text \<open>
  Claim C2 says that \<open>D\<close> ticks after \<^verbatim>\<open>tmTimerStartOnce(D, f)\<close> the callback has been
  invoked. It has not: \<^verbatim>\<open>tmTimerProcess\<close> runs before \<^verbatim>\<open>millis++\<close>, so the \<open>n\<close>-th tick
  after the start compares \<open>n - 1\<close> with the delay. With a delay of \<open>1\<close> on the initial
  table, one tick calls nothing and leaves the timer active; the second tick fires it.
\<close>

theorem tmTimerStartOnce_fires_late_counterexample:
  "map callback (timers tm_init) = replicate MAX_TIMERS 0 \<and>
   fst (tmTimerStartOnce 1 7 tm_init) = 0 \<and>
   trace (tmTick (snd (tmTimerStartOnce 1 7 tm_init))) = [] \<and>
   active (timers (tmTick (snd (tmTimerStartOnce 1 7 tm_init))) ! 0) = 1 \<and>
   trace (tmTick (tmTick (snd (tmTimerStartOnce 1 7 tm_init)))) = [Call 7]"
  by code_simp

text \<open>
  Claim C2, amended: let \<^verbatim>\<open>tmTimerStartOnce(D, f)\<close> install a non-null callback \<open>f\<close>, which
  no timer slot holds, into the first free slot \<open>k\<close>. The call returns \<open>0\<close>. During the
  first \<open>D\<close> ticks \<open>f\<close> is not invoked and the slot stays active. The tick after them,
  number \<open>D + 1\<close>, invokes \<open>f\<close> exactly once, and from then on, for any number of
  further ticks, \<open>f\<close> has been invoked exactly once, and the slot is inactive and still
  holds \<open>f\<close>.
\<close>

theorem tmTimerStartOnce_single_fire:
  assumes "wf_state s" and "f \<noteq> 0"
    and "\<forall>j<MAX_TIMERS. callback (timers s ! j) \<noteq> f"
    and "k < MAX_TIMERS" and "callback (timers s ! k) = 0"
    and "\<forall>j<k. callback (timers s ! j) \<noteq> 0"
  shows "fst (tmTimerStartOnce D f s) = 0 \<and>
     timers (snd (tmTimerStartOnce D f s)) ! k =
       \<lparr>active = 1, start_time = millis s, delay = D, callback = f\<rparr> \<and>
     (\<forall>n\<le>unat D.
        count_list (trace ((tmTick ^^ n) (snd (tmTimerStartOnce D f s)))) (Call f) =
          count_list (trace s) (Call f) \<and>
        active (timers ((tmTick ^^ n) (snd (tmTimerStartOnce D f s))) ! k) = 1) \<and>
     (\<forall>n>unat D.
        count_list (trace ((tmTick ^^ n) (snd (tmTimerStartOnce D f s)))) (Call f) =
          Suc (count_list (trace s) (Call f)) \<and>
        active (timers ((tmTick ^^ n) (snd (tmTimerStartOnce D f s))) ! k) = 0 \<and>
        callback (timers ((tmTick ^^ n) (snd (tmTimerStartOnce D f s))) ! k) = f)"
proof -
  let ?t = "\<lparr>active = 1, start_time = millis s, delay = D, callback = f\<rparr>"
  define s1 where "s1 = s\<lparr>timers := (timers s)[k := (timers s ! k)
            \<lparr>active := 1, start_time := millis s, delay := D, callback := f\<rparr>]\<rparr>"
  have start: "tmTimerStartOnce D f s = (0, s1)"
    unfolding s1_def using assms(3-6) by (rule tmTimerStartOnce_fresh)
  have len: "length (timers s) = MAX_TIMERS" using assms(1) by (simp add: wf_state_def)
  have wf1: "wf_state s1" using assms(1) by (simp add: s1_def wf_state_def)
  have slot: "timers s1 ! k = ?t" using len assms(4) by (simp add: s1_def)
  have cb: "callback (timers s1 ! k) = f" by (simp add: slot)
  have uniq: "\<forall>j<MAX_TIMERS. j \<noteq> k \<longrightarrow> callback (timers s1 ! j) \<noteq> f"
    using assms(3) by (simp add: s1_def)
  have act: "active (timers s1 ! k) \<noteq> 0" by (simp add: slot)
  have m1: "millis s1 = millis s" and tr1: "trace s1 = trace s" by (simp_all add: s1_def)
  have rem: "unat (delay (timers s1 ! k)) - unat (millis s1 - start_time (timers s1 ! k)) = unat D"
    by (simp add: slot m1)
  note cd = timer_countdown [OF wf1 assms(4) cb assms(2) uniq act, unfolded rem tr1]
  have early: "count_list (trace ((tmTick ^^ n) s1)) (Call f) = count_list (trace s) (Call f) \<and>
        active (timers ((tmTick ^^ n) s1) ! k) = 1" if "n \<le> unat D" for n
    using cd [of n] that by (simp add: slot)
  have late: "count_list (trace ((tmTick ^^ n) s1)) (Call f) = Suc (count_list (trace s) (Call f)) \<and>
        active (timers ((tmTick ^^ n) s1) ! k) = 0 \<and>
        callback (timers ((tmTick ^^ n) s1) ! k) = f" if "unat D < n" for n
    using cd [of n] that by (simp add: slot)
  show ?thesis
    using early late by (simp add: start slot)
qed

theorem tmTimerStartOnce_single_fire_witness:
  "fst (tmTimerStartOnce 3 7 tm_init) = 0 \<and>
   count_list (trace ((tmTick ^^ 3) (snd (tmTimerStartOnce 3 7 tm_init)))) (Call 7) = 0 \<and>
   active (timers ((tmTick ^^ 3) (snd (tmTimerStartOnce 3 7 tm_init))) ! 0) = 1 \<and>
   count_list (trace ((tmTick ^^ 4) (snd (tmTimerStartOnce 3 7 tm_init)))) (Call 7) = 1 \<and>
   active (timers ((tmTick ^^ 4) (snd (tmTimerStartOnce 3 7 tm_init))) ! 0) = 0 \<and>
   callback (timers ((tmTick ^^ 4) (snd (tmTimerStartOnce 3 7 tm_init))) ! 0) = 7 \<and>
   count_list (trace ((tmTick ^^ 7) (snd (tmTimerStartOnce 3 7 tm_init)))) (Call 7) = 1"
proof -
  have f: "(7 :: fptr) \<noteq> 0" by simp
  have fresh: "\<forall>j<MAX_TIMERS. callback (timers tm_init ! j) \<noteq> 7" by (simp add: tm_init_def)
  have k: "0 < MAX_TIMERS" by (simp add: MAX_TIMERS_def)
  have free: "callback (timers tm_init ! 0) = 0" by (simp add: tm_init_def MAX_TIMERS_def)
  have first: "\<forall>j<0. callback (timers tm_init ! j) \<noteq> 0" by simp
  note T = tmTimerStartOnce_single_fire [OF wf_tm_init f fresh k free first, of 3]
  have tr: "count_list (trace tm_init) (Call 7) = 0" by (simp add: tm_init_def)
  show ?thesis
    using T [THEN conjunct1]
      T [THEN conjunct2, THEN conjunct2, THEN conjunct1, rule_format, of 3]
      T [THEN conjunct2, THEN conjunct2, THEN conjunct2, rule_format, of 4]
      T [THEN conjunct2, THEN conjunct2, THEN conjunct2, rule_format, of 7]
    by (simp add: tr)
qed

subsection \<open>C3: the period of a task\<close>

text \<open>
  Claim C3: let \<^verbatim>\<open>tmAddTask(f, N)\<close> with \<open>N \<ge> 1\<close> and a non-null \<open>f\<close> succeed with
  index \<open>r\<close>, and let any schedule of ticks and updates follow. Then the countdown of
  the slot depends on the number of ticks alone, the task is not ready before the
  \<open>N\<close>-th tick, every tick whose number is a multiple of \<open>N\<close> makes it ready
  and no other tick changes its ready flag, and every update clears the flag and, when
  the task was ready, invokes \<open>f\<close>. So the task becomes ready after exactly \<open>N\<close>
  ticks, the next update consumes it, and it is ready again after \<open>N\<close> more ticks,
  wherever the updates fall between the ticks.
\<close>

theorem tmAddTask_periodic:
  assumes "wf_state s" and "f \<noteq> 0" and "N \<noteq> 0"
    and "tmAddTask f N s = (r, s1)" and "r \<noteq> - 1"
  shows
   "(\<forall>cs. unat (delay_ms (tasks (run cs s1) ! unat r)) = unat N - count_list cs Tick mod unat N) \<and>
    (\<forall>cs. count_list cs Tick < unat N \<longrightarrow> isReady (tasks (run cs s1) ! unat r) = 0) \<and>
    (\<forall>cs. Suc (count_list cs Tick) mod unat N = 0 \<longrightarrow>
           isReady (tasks (tmTick (run cs s1)) ! unat r) = 1) \<and>
    (\<forall>cs. Suc (count_list cs Tick) mod unat N \<noteq> 0 \<longrightarrow>
           isReady (tasks (tmTick (run cs s1)) ! unat r) = isReady (tasks (run cs s1) ! unat r)) \<and>
    (\<forall>cs. isReady (tasks (tmUpdate (run cs s1)) ! unat r) = 0 \<and>
          (isReady (tasks (run cs s1) ! unat r) \<noteq> 0 \<longrightarrow>
             Suc (count_list (trace (run cs s1)) (Call f))
               \<le> count_list (trace (tmUpdate (run cs s1))) (Call f)))"
proof -
  let ?k = "unat r"
  from assms(4,5) have k: "?k < MAX_TASKS"
    and s1: "s1 = s\<lparr>tasks := (tasks s)[?k := (tasks s ! ?k)
           \<lparr>taskFunc := f, period_ms := N, delay_ms := N, isReady := 0\<rparr>]\<rparr>"
    using tmAddTask_success by blast+
  have wf1: "wf_state s1" using assms(1) s1 by (simp add: wf_state_def)
  have slot: "tasks s1 ! ?k =
     (tasks s ! ?k)\<lparr>taskFunc := f, period_ms := N, delay_ms := N, isReady := 0\<rparr>"
    using assms(1) k s1 by (simp add: wf_state_def)
  have f1: "taskFunc (tasks s1 ! ?k) \<noteq> 0" using assms(2) slot by simp
  have p1: "period_ms (tasks s1 ! ?k) = N" and d1: "delay_ms (tasks s1 ! ?k) = N"
    and r1: "isReady (tasks s1 ! ?k) = 0" and t1: "taskFunc (tasks s1 ! ?k) = f"
    using slot by simp_all
  note cd = task_countdown [OF wf1 k f1 p1 d1 assms(3) r1]
  have wfr: "wf_state (run cs s1)" for cs using wf1 by (rule wf_run)
  have len: "?k < length (tasks (run cs s1))" for cs
    using wfr [of cs] k by (simp add: wf_state_def)
  have tf: "taskFunc (tasks (run cs s1) ! ?k) = f" for cs using cd [of cs] t1 by simp
  have tick: "isReady (tasks (tmTick (run cs s1)) ! ?k) =
      (if Suc (count_list cs Tick) mod unat N = 0 then 1 else isReady (tasks (run cs s1) ! ?k))" for cs
  proof -
    have "tasks (tmTick (run cs s1)) ! ?k = tick_slot (tasks (run cs s1) ! ?k)"
      using wfr [of cs] len [of cs] by (simp add: tasks_tmTick)
    moreover have "taskFunc (tasks (run cs s1) ! ?k) \<noteq> 0" using tf [of cs] assms(2) by simp
    moreover have "unat (delay_ms (tasks (run cs s1) ! ?k)) = unat N - count_list cs Tick mod unat N"
      using cd [of cs] by simp
    ultimately show ?thesis using assms(3) by (simp add: tick_slot_phase)
  qed
  have upd: "isReady (tasks (tmUpdate (run cs s1)) ! ?k) = 0" for cs
  proof -
    have "tasks (tmUpdate (run cs s1)) ! ?k = update_slot (tasks (run cs s1) ! ?k)"
      using wfr [of cs] len [of cs] by (simp add: tasks_tmUpdate)
    then show ?thesis
      using tf [of cs] assms(2) by (simp add: update_slot_def runnable_def)
  qed
  have inv: "Suc (count_list (trace (run cs s1)) (Call f))
               \<le> count_list (trace (tmUpdate (run cs s1))) (Call f)"
    if "isReady (tasks (run cs s1) ! ?k) \<noteq> 0" for cs
  proof -
    have "runnable (tasks (run cs s1) ! ?k)"
      using that tf [of cs] assms(2) by (simp add: runnable_def)
    with len [of cs] have "1 \<le> count_list (concat (map ran (tasks (run cs s1))))
        (Call (taskFunc (tasks (run cs s1) ! ?k)))"
      by (rule count_ran_slot)
    then show ?thesis
      using wfr [of cs] tf [of cs] by (simp add: trace_tmUpdate)
  qed
  show ?thesis
    using cd tick upd inv by simp
qed

theorem tmAddTask_periodic_witness:
  "unat (delay_ms (tasks (run [Tick, Update, Tick] (snd (tmAddTask 7 3 tm_init))) ! unat (0 :: 8 word))) = 1 \<and>
   isReady (tasks (run [Tick, Update, Tick] (snd (tmAddTask 7 3 tm_init))) ! unat (0 :: 8 word)) = 0 \<and>
   isReady (tasks (tmTick (run [Tick, Update, Tick] (snd (tmAddTask 7 3 tm_init)))) ! unat (0 :: 8 word)) = 1 \<and>
   isReady (tasks (tmUpdate (run [Tick, Update, Tick, Tick] (snd (tmAddTask 7 3 tm_init)))) ! unat (0 :: 8 word)) = 0 \<and>
   isReady (tasks (tmTick (run [Tick, Update, Tick, Tick, Update] (snd (tmAddTask 7 3 tm_init)))) ! unat (0 :: 8 word)) =
     isReady (tasks (run [Tick, Update, Tick, Tick, Update] (snd (tmAddTask 7 3 tm_init))) ! unat (0 :: 8 word)) \<and>
   isReady (tasks (tmTick (run [Tick, Update, Tick, Tick, Update, Tick, Update, Tick]
      (snd (tmAddTask 7 3 tm_init)))) ! unat (0 :: 8 word)) = 1"
proof -
  have f: "(7 :: fptr) \<noteq> 0" by simp
  have N: "(3 :: 32 word) \<noteq> 0" by simp
  have add: "tmAddTask 7 3 tm_init = (0, snd (tmAddTask 7 3 tm_init))" by code_simp
  have r: "(0 :: 8 word) \<noteq> - 1" by simp
  note T = tmAddTask_periodic [OF wf_tm_init f N add r]
  show ?thesis
    using T [THEN conjunct1, rule_format, of "[Tick, Update, Tick]"]
      T [THEN conjunct2, THEN conjunct1, rule_format, of "[Tick, Update, Tick]"]
      T [THEN conjunct2, THEN conjunct2, THEN conjunct1, rule_format, of "[Tick, Update, Tick]"]
      T [THEN conjunct2, THEN conjunct2, THEN conjunct2, THEN conjunct2, rule_format,
         of "[Tick, Update, Tick, Tick]", THEN conjunct1]
      T [THEN conjunct2, THEN conjunct2, THEN conjunct2, THEN conjunct1, rule_format,
         of "[Tick, Update, Tick, Tick, Update]"]
      T [THEN conjunct2, THEN conjunct2, THEN conjunct1, rule_format,
         of "[Tick, Update, Tick, Tick, Update, Tick, Update, Tick]"]
    by simp
qed

subsection \<open>C4: starting a timer again\<close>

text \<open>
  Claim C4: in a reachable state let timer slot \<open>k\<close> hold the non-null callback \<open>f\<close>.
  \<^verbatim>\<open>tmTimerStartOnce(D2, f)\<close> returns \<open>0\<close>, always writes \<open>D2\<close> into the delay of the
  slot, and sets the start time to the clock and the slot active only when the slot was
  not active; an active slot keeps its start time. No other slot changes. Afterwards
  the timer does not fire while the clock at the start of a tick is less than \<open>D2\<close>
  past the start time it has kept, and fires once in the tick that starts with the
  clock at that start time plus \<open>D2\<close> (in the next tick when that moment has passed).
\<close>

theorem tmTimerStartOnce_rearm:
  assumes "reachable s" and "f \<noteq> 0" and "k < MAX_TIMERS" and "callback (timers s ! k) = f"
  shows "fst (tmTimerStartOnce D2 f s) = 0 \<and>
     delay (timers (snd (tmTimerStartOnce D2 f s)) ! k) = D2 \<and>
     callback (timers (snd (tmTimerStartOnce D2 f s)) ! k) = f \<and>
     start_time (timers (snd (tmTimerStartOnce D2 f s)) ! k) =
       (if active (timers s ! k) = 0 then millis s else start_time (timers s ! k)) \<and>
     active (timers (snd (tmTimerStartOnce D2 f s)) ! k) =
       (if active (timers s ! k) = 0 then 1 else active (timers s ! k)) \<and>
     (\<forall>j<MAX_TIMERS. j \<noteq> k \<longrightarrow> timers (snd (tmTimerStartOnce D2 f s)) ! j = timers s ! j) \<and>
     (\<forall>n\<le>unat D2 - unat (millis s - start_time (timers (snd (tmTimerStartOnce D2 f s)) ! k)).
        count_list (trace ((tmTick ^^ n) (snd (tmTimerStartOnce D2 f s)))) (Call f) =
          count_list (trace s) (Call f) \<and>
        active (timers ((tmTick ^^ n) (snd (tmTimerStartOnce D2 f s))) ! k) \<noteq> 0) \<and>
     (\<forall>n>unat D2 - unat (millis s - start_time (timers (snd (tmTimerStartOnce D2 f s)) ! k)).
        count_list (trace ((tmTick ^^ n) (snd (tmTimerStartOnce D2 f s)))) (Call f) =
          Suc (count_list (trace s) (Call f)) \<and>
        active (timers ((tmTick ^^ n) (snd (tmTimerStartOnce D2 f s))) ! k) = 0) \<and>
     (active (timers s ! k) \<noteq> 0 \<and> millis s - start_time (timers s ! k) \<le> D2 \<longrightarrow>
        millis ((tmTick ^^ (unat D2 - unat (millis s - start_time (timers s ! k))))
                  (snd (tmTimerStartOnce D2 f s))) =
          start_time (timers s ! k) + D2)"
proof -
  from assms(1) have wf: "wf_state s" and u: "timers_unique s"
    using reachable_inv by blast+
  have len: "length (timers s) = MAX_TIMERS" using wf by (simp add: wf_state_def)
  have only: "\<forall>j<MAX_TIMERS. j \<noteq> k \<longrightarrow> callback (timers s ! j) \<noteq> f"
    using u assms(2-4) by (auto simp: timers_unique_def)
  then have first: "\<forall>j<k. callback (timers s ! j) \<noteq> f" using assms(3) by auto
  let ?t = "if active (timers s ! k) = 0
         then (timers s ! k)\<lparr>delay := D2, active := 1, start_time := millis s\<rparr>
         else (timers s ! k)\<lparr>delay := D2\<rparr>"
  define s1 where "s1 = s\<lparr>timers := (timers s)[k := ?t]\<rparr>"
  have res: "tmTimerStartOnce D2 f s = (0, s1)"
    unfolding s1_def using wf assms(3,4) first by (rule tmTimerStartOnce_again)
  have wf1: "wf_state s1" using wf by (simp add: s1_def wf_state_def)
  have slot: "timers s1 ! k = ?t" using len assms(3) by (simp add: s1_def)
  have others: "\<forall>j<MAX_TIMERS. j \<noteq> k \<longrightarrow> timers s1 ! j = timers s ! j"
    by (simp add: s1_def)
  have cb1: "callback (timers s1 ! k) = f" using assms(4) by (simp add: slot)
  have only1: "\<forall>j<MAX_TIMERS. j \<noteq> k \<longrightarrow> callback (timers s1 ! j) \<noteq> f"
    using only others by simp
  have act1: "active (timers s1 ! k) \<noteq> 0" by (simp add: slot)
  have m1: "millis s1 = millis s" and tr1: "trace s1 = trace s" by (simp_all add: s1_def)
  have d1: "delay (timers s1 ! k) = D2" by (simp add: slot)
  note cd = timer_countdown [OF wf1 assms(3) cb1 assms(2) only1 act1, unfolded m1 tr1 d1]
  let ?rem = "unat D2 - unat (millis s - start_time (timers s1 ! k))"
  have early: "count_list (trace ((tmTick ^^ n) s1)) (Call f) = count_list (trace s) (Call f) \<and>
        active (timers ((tmTick ^^ n) s1) ! k) \<noteq> 0" if "n \<le> ?rem" for n
    using cd [of n] that act1 by simp
  have late: "count_list (trace ((tmTick ^^ n) s1)) (Call f) = Suc (count_list (trace s) (Call f)) \<and>
        active (timers ((tmTick ^^ n) s1) ! k) = 0" if "?rem < n" for n
    using cd [of n] that by simp
  have clock: "millis ((tmTick ^^ (unat D2 - unat (millis s - start_time (timers s ! k)))) s1) =
          start_time (timers s ! k) + D2"
    if "millis s - start_time (timers s ! k) \<le> D2"
  proof -
    have "unat D2 - unat (millis s - start_time (timers s ! k)) =
          unat (D2 - (millis s - start_time (timers s ! k)))"
      using that by (simp add: unat_sub)
    then have "word_of_nat (unat D2 - unat (millis s - start_time (timers s ! k))) =
          D2 - (millis s - start_time (timers s ! k))"
      by simp
    then show ?thesis by (simp add: millis_tmTick_pow m1)
  qed
  have fields: "delay (timers s1 ! k) = D2 \<and> callback (timers s1 ! k) = f \<and>
     start_time (timers s1 ! k) =
       (if active (timers s ! k) = 0 then millis s else start_time (timers s ! k)) \<and>
     active (timers s1 ! k) = (if active (timers s ! k) = 0 then 1 else active (timers s ! k))"
    using assms(4) by (simp add: slot)
  show ?thesis
    unfolding res fst_conv snd_conv
    using fields others early late clock by blast
qed

theorem tmTimerStartOnce_rearm_witness:
  "fst (tmTimerStartOnce 5 7 (tmTick (tmTick (snd (tmTimerStartOnce 10 7 tm_init))))) = 0 \<and>
   delay (timers (snd (tmTimerStartOnce 5 7 (tmTick (tmTick (snd (tmTimerStartOnce 10 7 tm_init)))))) ! 0) = 5 \<and>
   start_time (timers (snd (tmTimerStartOnce 5 7 (tmTick (tmTick (snd (tmTimerStartOnce 10 7 tm_init)))))) ! 0) = 0 \<and>
   active (timers (snd (tmTimerStartOnce 5 7 (tmTick (tmTick (snd (tmTimerStartOnce 10 7 tm_init)))))) ! 0) = 1 \<and>
   count_list (trace ((tmTick ^^ 3) (snd (tmTimerStartOnce 5 7 (tmTick (tmTick (snd (tmTimerStartOnce 10 7 tm_init)))))))) (Call 7) = 0 \<and>
   active (timers ((tmTick ^^ 3) (snd (tmTimerStartOnce 5 7 (tmTick (tmTick (snd (tmTimerStartOnce 10 7 tm_init))))))) ! 0) \<noteq> 0 \<and>
   count_list (trace ((tmTick ^^ 4) (snd (tmTimerStartOnce 5 7 (tmTick (tmTick (snd (tmTimerStartOnce 10 7 tm_init)))))))) (Call 7) = 1 \<and>
   active (timers ((tmTick ^^ 4) (snd (tmTimerStartOnce 5 7 (tmTick (tmTick (snd (tmTimerStartOnce 10 7 tm_init))))))) ! 0) = 0 \<and>
   millis ((tmTick ^^ 3) (snd (tmTimerStartOnce 5 7 (tmTick (tmTick (snd (tmTimerStartOnce 10 7 tm_init))))))) = 5"
proof -
  let ?s0 = "tmTick (tmTick (snd (tmTimerStartOnce 10 7 tm_init)))"
  have reach: "reachable ?s0"
    by (intro reach_Tick reach_TimerStartOnce reach_init)
  have f: "(7 :: fptr) \<noteq> 0" by simp
  have k: "0 < MAX_TIMERS" by (simp add: MAX_TIMERS_def)
  have cb: "callback (timers ?s0 ! 0) = 7" by code_simp
  have a: "active (timers ?s0 ! 0) = 1" by code_simp
  have st: "start_time (timers ?s0 ! 0) = 0" by code_simp
  have m: "millis ?s0 = 2" by code_simp
  have tr: "count_list (trace ?s0) (Call 7) = 0" by code_simp
  note T = tmTimerStartOnce_rearm [OF reach f k cb, of 5]
  have st1: "start_time (timers (snd (tmTimerStartOnce 5 7 ?s0)) ! 0) = 0"
    using T [THEN conjunct2, THEN conjunct2, THEN conjunct2, THEN conjunct1] by (simp add: a st)
  have a1: "active (timers (snd (tmTimerStartOnce 5 7 ?s0)) ! 0) = 1"
    using T [THEN conjunct2, THEN conjunct2, THEN conjunct2, THEN conjunct2, THEN conjunct1]
    by (simp add: a)
  have rem: "unat (5 :: 32 word) - unat (millis ?s0 - start_time (timers (snd (tmTimerStartOnce 5 7 ?s0)) ! 0)) = 3"
    by (simp add: st1 m)
  have rem0: "unat (5 :: 32 word) - unat (millis ?s0 - start_time (timers ?s0 ! 0)) = 3"
    by (simp add: st m)
  have early: "count_list (trace ((tmTick ^^ 3) (snd (tmTimerStartOnce 5 7 ?s0)))) (Call 7) = 0 \<and>
      active (timers ((tmTick ^^ 3) (snd (tmTimerStartOnce 5 7 ?s0))) ! 0) \<noteq> 0"
    using T [THEN conjunct2, THEN conjunct2, THEN conjunct2, THEN conjunct2, THEN conjunct2,
        THEN conjunct2, THEN conjunct1, unfolded rem tr, THEN spec, of 3]
    by simp
  have late: "count_list (trace ((tmTick ^^ 4) (snd (tmTimerStartOnce 5 7 ?s0)))) (Call 7) = 1 \<and>
      active (timers ((tmTick ^^ 4) (snd (tmTimerStartOnce 5 7 ?s0))) ! 0) = 0"
    using T [THEN conjunct2, THEN conjunct2, THEN conjunct2, THEN conjunct2, THEN conjunct2,
        THEN conjunct2, THEN conjunct2, THEN conjunct1, unfolded rem tr, THEN spec, of 4]
    by simp
  have clock: "millis ((tmTick ^^ 3) (snd (tmTimerStartOnce 5 7 ?s0))) = 5"
    using T [THEN conjunct2, THEN conjunct2, THEN conjunct2, THEN conjunct2, THEN conjunct2,
        THEN conjunct2, THEN conjunct2, THEN conjunct2, unfolded rem0]
    by (simp add: a st m)
  show ?thesis
    using T [THEN conjunct1] T [THEN conjunct2, THEN conjunct1] st1 a1 early late clock
    by simp
qed

end
